theory Spec2Isabelle
  imports Main "HOL-Library.Sublist" "HOL-Library.Char_ord" "HOL-Library.List_Lexorder"
begin

section \<open>Python string and file primitives used by \<open>emergency_fix.py\<close>\<close>

text \<open>
  A Python \<open>str\<close> is modelled as a \<open>string\<close> whose characters are code points below 256.
  A file's content is the text that \<open>open(filepath, 'r', encoding='utf-8')\<close> hands to the
  program, that is after decoding and after the translation of line endings to
  \<open>\<newline>\<close>; writing in text mode is the inverse of that translation, so a text that was
  written is read back as it was written.

  \<open>isspace\<close> is \<open>str.isspace\<close> on those code points: TAB, LF, VT, FF, CR, the separators
  0x1C to 0x1F, SPACE, NEL (0x85) and the no-break space (0xA0).
\<close>

definition isspace :: "char \<Rightarrow> bool" where
  "isspace c = (let n = (of_char c :: nat) in
     (9 \<le> n \<and> n \<le> 13) \<or> (28 \<le> n \<and> n \<le> 32) \<or> n = 133 \<or> n = 160)"

text \<open>\<open>s.strip()\<close>: leading and trailing whitespace removed.\<close>

definition strip :: "string \<Rightarrow> string" where
  "strip s = rev (dropWhile isspace (rev (dropWhile isspace s)))"

text \<open>\<open>s.startswith(p)\<close>, \<open>s.endswith(p)\<close> and \<open>p in s\<close> on strings.\<close>

abbreviation startswith :: "string \<Rightarrow> string \<Rightarrow> bool" where
  "startswith s p \<equiv> prefix p s"

abbreviation endswith :: "string \<Rightarrow> string \<Rightarrow> bool" where
  "endswith s p \<equiv> suffix p s"

abbreviation contains :: "string \<Rightarrow> string \<Rightarrow> bool" where
  "contains s p \<equiv> sublist p s"

text \<open>
  \<open>s.replace(old, new)\<close>: every occurrence of \<open>old\<close> is replaced, scanning from the left and
  continuing after each replaced occurrence (occurrences that overlap a replaced one are not
  seen). For the empty \<open>old\<close> Python puts \<open>new\<close> before every character and at the end.
\<close>

function replace :: "string \<Rightarrow> string \<Rightarrow> string \<Rightarrow> string" where
  "replace old new [] = (if old = [] then new else [])"
| "replace old new (c # cs) =
     (if old = [] then new @ c # replace old new cs
      else if prefix old (c # cs) then new @ replace old new (drop (length old) (c # cs))
      else c # replace old new cs)"
  by pat_completeness auto
termination
  by (relation "measure (\<lambda>(old, new, s). length s)") auto

text \<open>
  \<open>f.readlines()\<close>: the text cut after every \<open>\<newline>\<close>; each line keeps its terminator, and
  only the last line can be without one.
\<close>

fun readlines :: "string \<Rightarrow> string list" where
  "readlines [] = []"
| "readlines (c # cs) =
     (if c = CHR ''\<newline>'' then [c] # readlines cs
      else (case readlines cs of [] \<Rightarrow> [[c]] | l # ls \<Rightarrow> (c # l) # ls))"

section \<open>Step 1: the parse loop of \<open>fix_file_structure\<close>\<close>

text \<open>The local variables of the loop; \<open>imports\<close> is a Python set of strings.\<close>

record parse_state =
  package_line :: "string option"
  imports_set :: "string set"
  other_lines :: "string list"
  header_comments :: "string list"
  package_found :: bool

definition init_state :: parse_state where
  "init_state = \<lparr>package_line = None, imports_set = {}, other_lines = [],
     header_comments = [], package_found = False\<rparr>"

text \<open>One iteration of \<open>for line in lines\<close>.\<close>

definition parse_line :: "parse_state \<Rightarrow> string \<Rightarrow> parse_state" where
  "parse_line st line = (let stripped = strip line in
     if startswith stripped ''package '' then
       st\<lparr>package_line := Some line, package_found := True\<rparr>
     else if startswith stripped ''import '' then
       st\<lparr>imports_set := insert stripped (imports_set st)\<rparr>
     else if \<not> package_found st \<and>
         (startswith stripped ''//'' \<or> startswith stripped ''/*'' \<or>
          startswith stripped ''*'' \<or> stripped = []) then
       st\<lparr>header_comments := header_comments st @ [line]\<rparr>
     else
       st\<lparr>other_lines := other_lines st @ [line]\<rparr>)"

fun parse_lines :: "parse_state \<Rightarrow> string list \<Rightarrow> parse_state" where
  "parse_lines st [] = st"
| "parse_lines st (line # lines) = parse_lines (parse_line st line) lines"

section \<open>Step 2: the body rewrite (Log to HiLog)\<close>

text \<open>
  The thirteen calls of \<open>body.replace\<close>, in the order of the source. The dictionary
  \<open>tag_map\<close> and the function \<open>log_replacer\<close> of the source are defined there and never
  called, so they have no counterpart here.
\<close>

definition fix_body :: "string \<Rightarrow> string" where
  \<open>fix_body body0 = (let
     body = replace ''HiHiLog'' ''HiLog'' body0;
     body = replace ''Log.d(TAG,'' ''HiLog.d(HiLog.TAG_ISLAND,'' body;
     body = replace ''Log.i(TAG,'' ''HiLog.i(HiLog.TAG_ISLAND,'' body;
     body = replace ''Log.w(TAG,'' ''HiLog.w(HiLog.TAG_ISLAND,'' body;
     body = replace ''Log.e(TAG,'' ''HiLog.e(HiLog.TAG_ISLAND,'' body;
     body = replace ''Log.d("HyperIsleIsland",'' ''HiLog.d(HiLog.TAG_ISLAND,'' body;
     body = replace ''Log.w("HyperIsleIsland",'' ''HiLog.w(HiLog.TAG_ISLAND,'' body;
     body = replace ''Log.e("HyperIsleIsland",'' ''HiLog.e(HiLog.TAG_ISLAND,'' body;
     body = replace ''Log.d("HyperIsle",'' ''HiLog.d(HiLog.TAG_ISLAND,'' body;
     body = replace ''Log.w("HyperIsle",'' ''HiLog.w(HiLog.TAG_ISLAND,'' body;
     body = replace ''Log.d("HI_NOTIF",'' ''HiLog.d(HiLog.TAG_NOTIF,'' body;
     body = replace ''Log.d("HI_CALL",'' ''HiLog.d(HiLog.TAG_CALL,'' body;
     body = replace ''Log.d("HI_INPUT",'' ''HiLog.d(HiLog.TAG_INPUT,'' body
   in body)\<close>

section \<open>Step 3: the imports\<close>

definition old_import :: string where
  "old_import = ''import android.util.Log''"

definition new_import :: string where
  "new_import = ''import com.coni.hyperisle.util.HiLog''"

definition reconstruct_imports :: "string set \<Rightarrow> string \<Rightarrow> string set" where
  "reconstruct_imports imps body = (let
     imps = (if old_import \<in> imps then imps - {old_import} else imps);
     imps = (if contains body ''HiLog.'' \<and> new_import \<notin> imps
             then insert new_import imps else imps)
   in imps)"

section \<open>Step 4: the text written back\<close>

definition write_back :: "string list \<Rightarrow> string \<Rightarrow> string list \<Rightarrow> string \<Rightarrow> string" where
  "write_back header pkg sorted_imports body =
     concat header @ pkg @ (if \<not> endswith pkg ''\<newline>'' then ''\<newline>'' else [])
     @ ''\<newline>'' @ concat (map (\<lambda>imp. imp @ ''\<newline>'') sorted_imports)
     @ ''\<newline>'' @ body"

text \<open>
  What \<open>fix_file_structure\<close> does with the text of a file: \<open>None\<close> is the early
  \<open>return\<close> (nothing is written), \<open>Some out\<close> is the text written to the file.
  \<open>not package_line\<close> holds of \<open>None\<close> and of the empty string.
\<close>

definition fix_text :: "string \<Rightarrow> string option" where
  "fix_text text = (let st = parse_lines init_state (readlines text) in
     case package_line st of
       None \<Rightarrow> None
     | Some pkg \<Rightarrow>
         if pkg = [] then None
         else (let
           body = fix_body (concat (other_lines st));
           imps = reconstruct_imports (imports_set st) body;
           sorted_imports = sorted_list_of_set imps
         in Some (write_back (header_comments st) pkg sorted_imports body)))"

section \<open>The file system and \<open>fix_file_structure\<close>\<close>

text \<open>
  A path holds a text file, or something that \<open>open\<close> cannot read as UTF-8 text (a
  directory, a file with undecodable bytes), or nothing. Writing to a file that was read
  is taken to succeed. \<open>stdout\<close> is what \<open>print\<close> has written, one entry per call.
  The loop at the end of the script, which walks a directory and calls
  \<open>fix_file_structure\<close> on every file whose name ends in \<open>.kt\<close>, is not modelled.
\<close>

datatype entry = Text string | Unreadable

datatype io_error = OpenError string

record world =
  files :: "string \<rightharpoonup> entry"
  stdout :: "string list"

definition fix_file_structure :: "string \<Rightarrow> world \<Rightarrow> io_error + world" where
  "fix_file_structure filepath w =
     (case files w filepath of
        None \<Rightarrow> Inr w
      | Some Unreadable \<Rightarrow> Inl (OpenError filepath)
      | Some (Text text) \<Rightarrow>
          (case fix_text text of
             None \<Rightarrow> Inr w
           | Some out \<Rightarrow>
               Inr (w\<lparr>files := (files w)(filepath \<mapsto> Text out),
                      stdout := stdout w @ [''Fixed '' @ filepath]\<rparr>)))"

section \<open>Vocabulary of the claims\<close>

text \<open>
  The tests of the parse loop as predicates of a line, the bucket a line goes to given the
  value of \<open>package_found\<close> when the line is reached, and the buckets of a whole list of
  lines, threading the flag as the loop does.
\<close>

definition is_package :: "string \<Rightarrow> bool" where
  "is_package line = startswith (strip line) ''package ''"

definition is_import :: "string \<Rightarrow> bool" where
  "is_import line = startswith (strip line) ''import ''"

definition is_comment_or_blank :: "string \<Rightarrow> bool" where
  "is_comment_or_blank line = (let stripped = strip line in
     startswith stripped ''//'' \<or> startswith stripped ''/*'' \<or>
     startswith stripped ''*'' \<or> stripped = [])"

datatype bucket = Header | Package | Import | Body

definition classify :: "bool \<Rightarrow> string \<Rightarrow> bucket" where
  "classify found line =
     (if is_package line then Package
      else if is_import line then Import
      else if \<not> found \<and> is_comment_or_blank line then Header
      else Body)"

fun buckets :: "bool \<Rightarrow> string list \<Rightarrow> bucket list" where
  "buckets found [] = []"
| "buckets found (line # lines) =
     classify found line # buckets (found \<or> is_package line) lines"

text \<open>The lines that go to bucket \<open>b\<close>, in the order of the file.\<close>

definition in_bucket :: "bucket \<Rightarrow> bool \<Rightarrow> string list \<Rightarrow> string list" where
  "in_bucket b found lines =
     map fst (filter (\<lambda>(l, k). k = b) (zip lines (buckets found lines)))"

text \<open>The package line as it is written: with a line terminator if it had none.\<close>

definition terminated :: "string \<Rightarrow> string" where
  "terminated pkg = pkg @ (if \<not> endswith pkg ''\<newline>'' then ''\<newline>'' else [])"

text \<open>The import block as it is written: every import followed by a line terminator.\<close>

definition import_block :: "string list \<Rightarrow> string" where
  "import_block imps = concat (map (\<lambda>imp. imp @ ''\<newline>'') imps)"

text \<open>The twelve patterns of the call rewrites with their replacements, in order.\<close>

definition call_rules :: "(string \<times> string) list" where
  \<open>call_rules =
    [(''Log.d(TAG,'', ''HiLog.d(HiLog.TAG_ISLAND,''),
     (''Log.i(TAG,'', ''HiLog.i(HiLog.TAG_ISLAND,''),
     (''Log.w(TAG,'', ''HiLog.w(HiLog.TAG_ISLAND,''),
     (''Log.e(TAG,'', ''HiLog.e(HiLog.TAG_ISLAND,''),
     (''Log.d("HyperIsleIsland",'', ''HiLog.d(HiLog.TAG_ISLAND,''),
     (''Log.w("HyperIsleIsland",'', ''HiLog.w(HiLog.TAG_ISLAND,''),
     (''Log.e("HyperIsleIsland",'', ''HiLog.e(HiLog.TAG_ISLAND,''),
     (''Log.d("HyperIsle",'', ''HiLog.d(HiLog.TAG_ISLAND,''),
     (''Log.w("HyperIsle",'', ''HiLog.w(HiLog.TAG_ISLAND,''),
     (''Log.d("HI_NOTIF",'', ''HiLog.d(HiLog.TAG_NOTIF,''),
     (''Log.d("HI_CALL",'', ''HiLog.d(HiLog.TAG_CALL,''),
     (''Log.d("HI_INPUT",'', ''HiLog.d(HiLog.TAG_INPUT,'')]\<close>

text \<open>All thirteen rewrites, the collapse of the doubled prefix first.\<close>

definition all_rules :: "(string \<times> string) list" where
  "all_rules = (''HiHiLog'', ''HiLog'') # call_rules"

text \<open>
  The state after the parse loop on a text, the body after the rewrites and the sorted
  imports after step 3, as \<open>fix_text\<close> computes them.
\<close>

definition parsed :: "string \<Rightarrow> parse_state" where
  "parsed t = parse_lines init_state (readlines t)"

definition body_of :: "string \<Rightarrow> string" where
  "body_of t = fix_body (concat (other_lines (parsed t)))"

definition imports_of :: "string \<Rightarrow> string list" where
  "imports_of t = sorted_list_of_set (reconstruct_imports (imports_set (parsed t)) (body_of t))"

definition has_package :: "string \<Rightarrow> bool" where
  "has_package t = (\<exists>l\<in>set (readlines t). is_package l)"

text \<open>A string that \<open>strip\<close> leaves as it is: empty, or with no whitespace at either end.\<close>

definition stripped :: "string \<Rightarrow> bool" where
  "stripped s \<longleftrightarrow> s = [] \<or> (\<not> isspace (hd s) \<and> \<not> isspace (last s))"

text \<open>A list of rewrites applied in order, and the characters that occur in a pattern.\<close>

definition rewrite :: "(string \<times> string) list \<Rightarrow> string \<Rightarrow> string" where
  "rewrite rules s = fold (\<lambda>(old, new). replace old new) rules s"

definition in_pattern :: "char \<Rightarrow> bool" where
  "in_pattern c = list_ex (\<lambda>(old, new). c \<in> set old) all_rules"

definition has_pattern :: "(string \<times> string) list \<Rightarrow> string \<Rightarrow> bool" where
  "has_pattern rules s = list_ex (\<lambda>(old, new). contains s old) rules"

text \<open>
  A complete line ends in its line terminator and has no other; a last line can also be
  a nonempty text without any. \<open>wf_lines\<close> is what \<open>readlines\<close> returns: complete
  lines, and at most the last one without a terminator.
\<close>

definition complete_line :: "string \<Rightarrow> bool" where
  "complete_line l \<longleftrightarrow> l \<noteq> [] \<and> last l = CHR ''\<newline>'' \<and> CHR ''\<newline>'' \<notin> set (butlast l)"

definition open_line :: "string \<Rightarrow> bool" where
  "open_line l \<longleftrightarrow> l \<noteq> [] \<and> CHR ''\<newline>'' \<notin> set l"

fun wf_lines :: "string list \<Rightarrow> bool" where
  "wf_lines [] = True"
| "wf_lines [l] = (complete_line l \<or> open_line l)"
| "wf_lines (l # ls) = (complete_line l \<and> wf_lines ls)"

text \<open>The text that a run writes for a text with a package line.\<close>

definition written :: "string \<Rightarrow> string" where
  "written t = write_back (header_comments (parsed t))
     (last (filter is_package (readlines t))) (imports_of t) (body_of t)"

section \<open>Facts about the string primitives\<close>

lemma strip_Nil [simp]: "strip [] = []"
  by (simp add: strip_def)

lemma rstrip_prefix: "xs = rev (dropWhile P (rev xs)) @ rev (takeWhile P (rev xs))"
proof -
  have "rev xs = takeWhile P (rev xs) @ dropWhile P (rev xs)" by simp
  then have "rev (rev xs) = rev (takeWhile P (rev xs) @ dropWhile P (rev xs))"
    by (simp only:)
  then show ?thesis by (simp only: rev_rev_ident rev_append)
qed

lemma strip_of_stripped: "stripped s \<Longrightarrow> strip s = s"
proof (cases "s = []")
  case True
  then show ?thesis by simp
next
  case False
  assume "stripped s"
  with False have h: "\<not> isspace (hd s)" and l: "\<not> isspace (last s)"
    by (auto simp: stripped_def)
  from False h have 1: "dropWhile isspace s = s"
    by (cases s) auto
  from False l have 2: "dropWhile isspace (rev s) = rev s"
    by (cases "rev s") (auto simp: last_rev hd_rev)
  show ?thesis by (simp add: strip_def 1 2)
qed

lemma stripped_strip: "stripped (strip s)"
proof (cases "strip s = []")
  case True
  then show ?thesis by (simp add: stripped_def)
next
  case False
  let ?a = "dropWhile isspace s"
  let ?d = "dropWhile isspace (rev ?a)"
  from False have d: "?d \<noteq> []" by (simp add: strip_def)
  then have "\<not> isspace (hd ?d)" by (rule hd_dropWhile)
  then have l: "\<not> isspace (last (strip s))"
    using d by (simp add: strip_def last_rev)
  have a: "?a \<noteq> []"
  proof
    assume e: "?a = []"
    have "?d = []" unfolding e by simp
    with d show False by contradiction
  qed
  then have ha: "\<not> isspace (hd ?a)" by (rule hd_dropWhile)
  have "?a = strip s @ rev (takeWhile isspace (rev ?a))"
    unfolding strip_def by (rule rstrip_prefix)
  with False have "hd ?a = hd (strip s)"
    by (metis hd_append2)
  with ha l show ?thesis by (simp add: stripped_def)
qed

lemma strip_strip [simp]: "strip (strip s) = strip s"
  by (rule strip_of_stripped) (rule stripped_strip)


lemma readlines_line:
  "CHR ''\<newline>'' \<notin> set l \<Longrightarrow> readlines (l @ CHR ''\<newline>'' # rest) = (l @ ''\<newline>'') # readlines rest"
  by (induction l) auto

lemma isspace_newline [simp]: "isspace CHR ''\<newline>''"
  by (simp add: isspace_def)

lemma strip_snoc_space: "isspace c \<Longrightarrow> strip (s @ [c]) = strip s"
proof (cases "\<forall>x\<in>set s. isspace x")
  case True
  assume c: "isspace c"
  have 1: "dropWhile isspace (s @ [c]) = []" using True c by simp
  have 2: "dropWhile isspace s = []" using True by simp
  show ?thesis by (simp only: strip_def 1 2)
next
  case False
  assume c: "isspace c"
  from False have "dropWhile isspace (s @ [c]) = dropWhile isspace s @ [c]"
    by (auto simp: dropWhile_append1)
  with c show ?thesis by (simp add: strip_def)
qed

lemma is_package_newline: "is_package (l @ ''\<newline>'') = is_package l"
  by (simp add: is_package_def strip_snoc_space)


lemma concat_readlines [simp]: "concat (readlines t) = t"
  by (induction t) (auto split: list.splits)

lemma readlines_eq_Nil [simp]: "readlines t = [] \<longleftrightarrow> t = []"
  by (cases t) (auto split: list.splits)

lemma complete_lineI: "CHR ''\<newline>'' \<notin> set b \<Longrightarrow> complete_line (b @ ''\<newline>'')"
  by (simp add: complete_line_def)

lemma complete_lineE:
  assumes "complete_line l"
  obtains b where "l = b @ ''\<newline>''" and "CHR ''\<newline>'' \<notin> set b"
proof -
  from assms have "l = butlast l @ ''\<newline>''" "CHR ''\<newline>'' \<notin> set (butlast l)"
    by (auto simp: complete_line_def) (metis append_butlast_last_id)
  then show thesis by (rule that)
qed

lemma readlines_complete:
  "complete_line l \<Longrightarrow> readlines (l @ rest) = l # readlines rest"
  by (erule complete_lineE) (simp add: readlines_line)

lemma readlines_open: "open_line l \<Longrightarrow> readlines l = [l]"
proof (induction l)
  case Nil
  then show ?case by (simp add: open_line_def)
next
  case (Cons c l)
  then show ?case
    by (cases l) (auto simp: open_line_def)
qed

lemma readlines_completes:
  "\<forall>l\<in>set ls. complete_line l \<Longrightarrow> readlines (concat ls @ rest) = ls @ readlines rest"
  by (induction ls) (auto simp: readlines_complete)

lemma wf_lines_Cons:
  "wf_lines (l # ls) \<longleftrightarrow> (if ls = [] then complete_line l \<or> open_line l
     else complete_line l \<and> wf_lines ls)"
  by (cases ls) auto

lemma readlines_wf: "wf_lines ls \<Longrightarrow> readlines (concat ls) = ls"
proof (induction ls)
  case Nil
  then show ?case by simp
next
  case (Cons l ls)
  show ?case
  proof (cases "ls = []")
    case True
    with Cons.prems show ?thesis
      using readlines_complete [of l "[]"] by (auto simp: readlines_open)
  next
    case False
    with Cons show ?thesis
      by (simp add: wf_lines_Cons readlines_complete)
  qed
qed

lemma wf_readlines: "wf_lines (readlines t)"
proof (induction t)
  case Nil
  then show ?case by simp
next
  case (Cons c t)
  show ?case
  proof (cases "c = CHR ''\<newline>''")
    case True
    have "complete_line [c]" unfolding True by (simp add: complete_line_def)
    with Cons True show ?thesis by (simp add: wf_lines_Cons)
  next
    case False
    show ?thesis
    proof (cases "readlines t")
      case Nil
      with False show ?thesis by (simp add: open_line_def)
    next
      case (Cons l ls)
      have l: "l \<noteq> []"
      proof
        assume "l = []"
        with Cons have "[] \<in> set (readlines t)" by simp
        moreover have "[] \<notin> set (readlines u)" for u
          by (induction u) (auto split: list.splits)
        ultimately show False by simp
      qed
      from Cons.IH Cons have wf: "wf_lines (l # ls)" by simp
      from l False have c: "complete_line l \<Longrightarrow> complete_line (c # l)"
        by (auto simp: complete_line_def)
      from l False have "open_line l \<Longrightarrow> open_line (c # l)"
        by (auto simp: open_line_def)
      with wf c False Cons show ?thesis
        by (auto simp: wf_lines_Cons)
    qed
  qed
qed


section \<open>The parse loop sorts every line into its bucket\<close>

lemma parse_line_cases:
  "parse_line st line =
     (if is_package line then st\<lparr>package_line := Some line, package_found := True\<rparr>
      else if is_import line then st\<lparr>imports_set := insert (strip line) (imports_set st)\<rparr>
      else if \<not> package_found st \<and> is_comment_or_blank line
        then st\<lparr>header_comments := header_comments st @ [line]\<rparr>
      else st\<lparr>other_lines := other_lines st @ [line]\<rparr>)"
  by (simp add: parse_line_def is_package_def is_import_def is_comment_or_blank_def Let_def)

lemma classify_iff [simp]:
  "classify found l = Package \<longleftrightarrow> is_package l"
  "classify found l = Import \<longleftrightarrow> \<not> is_package l \<and> is_import l"
  "classify found l = Header \<longleftrightarrow>
     \<not> is_package l \<and> \<not> is_import l \<and> \<not> found \<and> is_comment_or_blank l"
  "classify found l = Body \<longleftrightarrow>
     \<not> is_package l \<and> \<not> is_import l \<and> (found \<or> \<not> is_comment_or_blank l)"
  by (auto simp: classify_def)

lemma is_import_not_package: "is_import l \<Longrightarrow> \<not> is_package l"
  by (auto simp: is_import_def is_package_def prefix_def)

lemma comment_not_package: "is_comment_or_blank l \<Longrightarrow> \<not> is_package l"
  by (auto simp: is_comment_or_blank_def is_package_def prefix_def Let_def)

lemma comment_not_import: "is_comment_or_blank l \<Longrightarrow> \<not> is_import l"
  by (auto simp: is_comment_or_blank_def is_import_def prefix_def Let_def)

lemma is_package_nonempty: "is_package l \<Longrightarrow> l \<noteq> []"
  by (auto simp: is_package_def)

lemma length_buckets [simp]: "length (buckets found lines) = length lines"
  by (induction lines arbitrary: found) auto

lemma in_bucket_Nil [simp]: "in_bucket b found [] = []"
  by (simp add: in_bucket_def)

lemma in_bucket_Cons:
  "in_bucket b found (l # ls) =
     (if classify found l = b then [l] else []) @ in_bucket b (found \<or> is_package l) ls"
  by (simp add: in_bucket_def)

lemma in_bucket_Package: "in_bucket Package found ls = filter is_package ls"
  by (induction ls arbitrary: found) (auto simp: in_bucket_Cons)

lemma in_bucket_Import: "in_bucket Import found ls = filter is_import ls"
  by (induction ls arbitrary: found) (auto simp: in_bucket_Cons is_import_not_package)

lemma in_bucket_Header_found: "in_bucket Header True ls = []"
  by (induction ls) (auto simp: in_bucket_Cons)

lemma in_bucket_Body_found:
  "in_bucket Body True ls = filter (\<lambda>l. \<not> is_package l \<and> \<not> is_import l) ls"
  by (induction ls) (auto simp: in_bucket_Cons)

lemma parse_lines_found:
  "package_found (parse_lines st ls) = (package_found st \<or> (\<exists>l\<in>set ls. is_package l))"
  by (induction ls arbitrary: st) (auto simp: parse_line_cases)

lemma parse_lines_header:
  "header_comments (parse_lines st ls) =
     header_comments st @ in_bucket Header (package_found st) ls"
  by (induction ls arbitrary: st) (auto simp: parse_line_cases in_bucket_Cons)

lemma parse_lines_other:
  "other_lines (parse_lines st ls) = other_lines st @ in_bucket Body (package_found st) ls"
  by (induction ls arbitrary: st) (auto simp: parse_line_cases in_bucket_Cons)

lemma parse_lines_imports:
  "imports_set (parse_lines st ls) = imports_set st \<union> strip ` set (filter is_import ls)"
  by (induction ls arbitrary: st) (auto simp: parse_line_cases is_import_not_package)

lemma parse_lines_package:
  "package_line (parse_lines st ls) =
     (if \<exists>l\<in>set ls. is_package l then Some (last (filter is_package ls))
      else package_line st)"
  by (induction ls arbitrary: st) (auto simp: parse_line_cases filter_empty_conv)

lemma last_package: "\<exists>l\<in>set ls. is_package l \<Longrightarrow> is_package (last (filter is_package ls))"
proof -
  assume "\<exists>l\<in>set ls. is_package l"
  then have "filter is_package ls \<noteq> []"
    by (simp add: filter_empty_conv)
  then have "last (filter is_package ls) \<in> set (filter is_package ls)"
    by (rule last_in_set)
  then show ?thesis by simp
qed

lemma write_back_parts:
  "write_back header pkg imps body =
     concat header @ terminated pkg @ ''\<newline>'' @ import_block imps @ ''\<newline>'' @ body"
  by (simp add: write_back_def terminated_def import_block_def)

lemma fix_text_None: "\<not> (\<exists>l\<in>set (readlines text). is_package l) \<Longrightarrow> fix_text text = None"
  by (simp add: fix_text_def Let_def parse_lines_package init_state_def)

lemma fix_text_Some:
  assumes "\<exists>l\<in>set (readlines text). is_package l"
  shows "fix_text text = Some (write_back
           (in_bucket Header False (readlines text))
           (last (filter is_package (readlines text)))
           (sorted_list_of_set (reconstruct_imports
              (strip ` set (filter is_import (readlines text)))
              (fix_body (concat (in_bucket Body False (readlines text))))))
           (fix_body (concat (in_bucket Body False (readlines text)))))"
proof -
  have "last (filter is_package (readlines text)) \<noteq> []"
    using last_package [OF assms] by (rule is_package_nonempty)
  with assms show ?thesis
    by (simp add: fix_text_def Let_def parse_lines_package parse_lines_header
        parse_lines_other parse_lines_imports init_state_def)
qed

lemma finite_reconstruct: "finite imps \<Longrightarrow> finite (reconstruct_imports imps body)"
  by (simp add: reconstruct_imports_def Let_def)

lemma old_not_in_reconstruct: "old_import \<notin> reconstruct_imports imps body"
  by (auto simp: reconstruct_imports_def Let_def old_import_def new_import_def)

lemma new_in_reconstruct:
  "contains body ''HiLog.'' \<Longrightarrow> new_import \<in> reconstruct_imports imps body"
  by (auto simp: reconstruct_imports_def Let_def old_import_def new_import_def)

lemma reconstruct_imports_eq:
  "reconstruct_imports imps body =
     (imps - {old_import}) \<union> (if contains body ''HiLog.'' then {new_import} else {})"
  by (auto simp: reconstruct_imports_def Let_def)

lemma buckets_nth:
  "i < length ls \<Longrightarrow>
     buckets found ls ! i = classify (found \<or> (\<exists>j<i. is_package (ls ! j))) (ls ! i)"
proof (induction ls arbitrary: found i)
  case Nil
  then show ?case by simp
next
  case (Cons l ls)
  show ?case
  proof (cases i)
    case 0
    then show ?thesis by simp
  next
    case (Suc k)
    with Cons.prems have k: "k < length ls" by simp
    have ex: "(\<exists>j<Suc k. is_package ((l # ls) ! j)) \<longleftrightarrow>
              is_package l \<or> (\<exists>j<k. is_package (ls ! j))"
      by (auto simp: less_Suc_eq_0_disj)
    show ?thesis
      unfolding Suc ex using Cons.IH [OF k, of "found \<or> is_package l"] by simp
  qed
qed

lemma bucket_sizes:
  "length (in_bucket Header found ls) + length (in_bucket Package found ls) +
   length (in_bucket Import found ls) + length (in_bucket Body found ls) = length ls"
  by (induction ls arbitrary: found) (auto simp: in_bucket_Cons)


lemma has_package_code: "has_package t = list_ex is_package (readlines t)"
  by (simp add: has_package_def list_ex_iff)

lemma parsed_header: "header_comments (parsed t) = in_bucket Header False (readlines t)"
  by (simp add: parsed_def parse_lines_header init_state_def)

lemma parsed_other: "other_lines (parsed t) = in_bucket Body False (readlines t)"
  by (simp add: parsed_def parse_lines_other init_state_def)

lemma parsed_imports: "imports_set (parsed t) = strip ` set (filter is_import (readlines t))"
  by (simp add: parsed_def parse_lines_imports init_state_def)

lemma parsed_package:
  "has_package t \<Longrightarrow>
     package_line (parsed t) = Some (last (filter is_package (readlines t)))"
  by (simp add: parsed_def parse_lines_package has_package_def)

lemma finite_parsed_imports: "finite (imports_set (parsed t))"
  by (simp add: parsed_imports)

lemma set_imports_of:
  "set (imports_of t) = reconstruct_imports (imports_set (parsed t)) (body_of t)"
  by (simp add: imports_of_def finite_reconstruct finite_parsed_imports)

lemma sorted_imports_of: "sorted (imports_of t)" "distinct (imports_of t)"
  by (simp_all add: imports_of_def)

lemma fix_text_has_package:
  assumes "has_package t"
  shows "fix_text t = Some (write_back (header_comments (parsed t))
           (last (filter is_package (readlines t))) (imports_of t) (body_of t))"
  using fix_text_Some [of t] assms
  by (simp add: has_package_def imports_of_def body_of_def parsed_header parsed_other
      parsed_imports)

lemma fix_text_not_has_package: "\<not> has_package t \<Longrightarrow> fix_text t = None"
  by (simp add: fix_text_None has_package_def)

lemma in_bucket_classify:
  "l \<in> set (in_bucket b found ls) \<Longrightarrow> l \<in> set ls \<and> (\<exists>f. classify f l = b)"
  by (induction ls arbitrary: found) (auto simp: in_bucket_Cons split: if_splits)

lemma header_no_package: "l \<in> set (header_comments (parsed t)) \<Longrightarrow> \<not> is_package l"
  by (auto simp: parsed_header dest!: in_bucket_classify)

lemma other_no_package: "l \<in> set (other_lines (parsed t)) \<Longrightarrow> \<not> is_package l"
  by (auto simp: parsed_other dest!: in_bucket_classify)

lemma terminated_ends: "endswith (terminated pkg) ''\<newline>''"
  by (simp add: terminated_def suffix_def)


lemma wf_lines_tail: "wf_lines (l # ls) \<Longrightarrow> wf_lines ls"
  by (cases ls) auto

lemma wf_lines_head: "wf_lines (l # ls) \<Longrightarrow> complete_line l \<or> open_line l"
  by (cases ls) auto

lemma wf_in_bucket: "wf_lines ls \<Longrightarrow> wf_lines (in_bucket b found ls)"
proof (induction ls arbitrary: found)
  case Nil
  then show ?case by simp
next
  case (Cons l ls)
  from Cons.prems have tail: "wf_lines ls" by (rule wf_lines_tail)
  then have IH: "wf_lines (in_bucket b (found \<or> is_package l) ls)" by (rule Cons.IH)
  show ?case
  proof (cases "classify found l = b")
    case False
    with IH show ?thesis by (simp add: in_bucket_Cons)
  next
    case True
    show ?thesis
    proof (cases "in_bucket b (found \<or> is_package l) ls = []")
      case True
      with \<open>classify found l = b\<close> Cons.prems show ?thesis
        using wf_lines_head [of l ls] by (simp add: in_bucket_Cons)
    next
      case False
      then have "ls \<noteq> []" by auto
      with Cons.prems have "complete_line l" by (simp add: wf_lines_Cons)
      with True False IH show ?thesis by (simp add: in_bucket_Cons wf_lines_Cons)
    qed
  qed
qed

lemma header_complete:
  "wf_lines ls \<Longrightarrow> \<exists>l\<in>set ls. is_package l \<Longrightarrow>
     \<forall>h\<in>set (in_bucket Header found ls). complete_line h"
proof (induction ls arbitrary: found)
  case Nil
  then show ?case by simp
next
  case (Cons l ls)
  show ?case
  proof (cases "is_package l")
    case True
    then show ?thesis by (simp add: in_bucket_Cons in_bucket_Header_found)
  next
    case False
    with Cons.prems(2) have ex: "\<exists>l\<in>set ls. is_package l" by simp
    then have "ls \<noteq> []" by auto
    with Cons.prems(1) have l: "complete_line l" and wf: "wf_lines ls"
      by (simp_all add: wf_lines_Cons)
    from Cons.IH [OF wf ex]
    have "\<forall>h\<in>set (in_bucket Header (found \<or> is_package l) ls). complete_line h" .
    with l show ?thesis by (auto simp: in_bucket_Cons)
  qed
qed

lemma in_bucket_append:
  "in_bucket b found (xs @ ys) =
     in_bucket b found xs @ in_bucket b (found \<or> (\<exists>l\<in>set xs. is_package l)) ys"
  by (induction xs arbitrary: found) (auto simp: in_bucket_Cons)

lemma in_bucket_all_header:
  "\<forall>h\<in>set hs. classify False h = Header \<Longrightarrow>
     in_bucket b False hs = (if b = Header then hs else [])"
  by (induction hs) (auto simp: in_bucket_Cons)

lemma in_bucket_Header_is: "h \<in> set (in_bucket Header found ls) \<Longrightarrow> classify False h = Header"
  by (auto dest!: in_bucket_classify)


section \<open>Facts about \<open>replace\<close> and the body rewrite\<close>

lemma replace_Cons:
  "old \<noteq> [] \<Longrightarrow> replace old new (c # cs) =
     (if prefix old (c # cs) then new @ replace old new (drop (length old) (c # cs))
      else c # replace old new cs)"
  by simp

lemma replace_Nil: "old \<noteq> [] \<Longrightarrow> replace old new [] = []"
  by simp

lemma replace_absent:
  "old \<noteq> [] \<Longrightarrow> \<not> sublist old s \<Longrightarrow> replace old new s = s"
  by (induction s) (auto simp: sublist_Cons_right)

lemma replace_present:
  "old \<noteq> [] \<Longrightarrow> sublist old s \<Longrightarrow> sublist new (replace old new s)"
proof (induction old new s rule: replace.induct)
  case (1 old new)
  then show ?case by simp
next
  case (2 old new c cs)
  show ?case
  proof (cases "prefix old (c # cs)")
    case True
    with 2 show ?thesis by simp
  next
    case False
    with "2.prems" have "sublist old cs" by (simp add: sublist_Cons_right)
    with 2 False have "sublist new (replace old new cs)" by simp
    with "2.prems" False show ?thesis by (simp add: sublist_Cons_right)
  qed
qed

lemma prefix_append_notin:
  "c \<notin> set p \<Longrightarrow> prefix p (xs @ c # ys) \<longleftrightarrow> prefix p xs"
  by (auto simp: prefix_append prefix_Cons)

lemma replace_split:
  "old \<noteq> [] \<Longrightarrow> c \<notin> set old \<Longrightarrow>
     replace old new (xs @ c # ys) = replace old new xs @ c # replace old new ys"
proof (induction old new xs rule: replace.induct)
  case (1 old new)
  then have "\<not> prefix old (c # ys)"
    by (cases old) auto
  with 1 show ?case by simp
next
  case (2 old new x xs)
  show ?case
  proof (cases "prefix old (x # xs)")
    case True
    then have "length old \<le> length (x # xs)" by (rule prefix_length_le)
    then have "drop (length old) ((x # xs) @ c # ys) = drop (length old) (x # xs) @ c # ys"
      by (simp only: drop_append) simp
    with 2 True show ?thesis
      using prefix_append_notin [of c old "x # xs" ys] by simp
  next
    case False
    with 2 show ?thesis
      using prefix_append_notin [of c old "x # xs" ys] by simp
  qed
qed

lemma set_replace: "set (replace old new s) \<subseteq> set s \<union> set new"
proof (induction old new s rule: replace.induct)
  case (1 old new)
  then show ?case by auto
next
  case (2 old new c cs)
  have "set (drop (length old) (c # cs)) \<subseteq> set (c # cs)" by (rule set_drop_subset)
  with 2 show ?case by (auto simp del: drop_Suc_Cons)
qed


lemma fix_body_rewrite: "fix_body b = rewrite all_rules b"
  by (simp add: fix_body_def rewrite_def all_rules_def call_rules_def Let_def)

lemma rewrite_Nil [simp]: "rewrite [] s = s"
  by (simp add: rewrite_def)

lemma rewrite_Cons [simp]: "rewrite ((old, new) # rules) s = rewrite rules (replace old new s)"
  by (simp add: rewrite_def)

lemma rewrite_split:
  "\<forall>(old, new)\<in>set rules. old \<noteq> [] \<and> c \<notin> set old \<Longrightarrow>
     rewrite rules (xs @ c # ys) = rewrite rules xs @ c # rewrite rules ys"
  by (induction rules arbitrary: xs ys) (auto simp: replace_split)

lemma all_rules_nonempty: "\<forall>(old, new)\<in>set all_rules. old \<noteq> []"
  by (simp add: all_rules_def call_rules_def)

lemma not_in_pattern: "\<not> in_pattern c \<Longrightarrow> \<forall>(old, new)\<in>set all_rules. old \<noteq> [] \<and> c \<notin> set old"
  using all_rules_nonempty by (auto simp: in_pattern_def list_ex_iff)

lemma fix_body_split:
  "\<not> in_pattern c \<Longrightarrow> fix_body (xs @ c # ys) = fix_body xs @ c # fix_body ys"
  unfolding fix_body_rewrite by (rule rewrite_split) (rule not_in_pattern)

lemma space_not_in_pattern: "isspace c \<Longrightarrow> \<not> in_pattern c"
  by (auto simp: in_pattern_def all_rules_def call_rules_def isspace_def)

lemma rewrite_absent:
  "\<forall>(old, new)\<in>set rules. old \<noteq> [] \<Longrightarrow> \<not> has_pattern rules s \<Longrightarrow> rewrite rules s = s"
  by (induction rules) (auto simp: has_pattern_def replace_absent)

lemma sublist_chain: "sublist b c \<Longrightarrow> sublist a b \<Longrightarrow> sublist a c"
  unfolding sublist_def by (metis append.assoc)

lemma replace_keeps:
  assumes "old \<noteq> []" and "sublist h new" and "sublist h s"
  shows "sublist h (replace old new s)"
proof (cases "sublist old s")
  case True
  with assms(1) have "sublist new (replace old new s)" by (rule replace_present)
  then show ?thesis using assms(2) by (rule sublist_chain)
next
  case False
  with assms show ?thesis by (simp add: replace_absent)
qed

lemma rewrite_introduces:
  assumes "\<forall>(old, new)\<in>set rules. old \<noteq> [] \<and> sublist h new"
    and "sublist h s \<or> has_pattern rules s"
  shows "sublist h (rewrite rules s)"
  using assms
proof (induction rules arbitrary: s)
  case Nil
  then show ?case by (simp add: has_pattern_def)
next
  case (Cons rule rules)
  obtain old new where rule: "rule = (old, new)" by (cases rule)
  from Cons.prems(1) rule have old: "old \<noteq> []" and new: "sublist h new"
    and rest: "\<forall>(old, new)\<in>set rules. old \<noteq> [] \<and> sublist h new"
    by auto
  have "sublist h (replace old new s) \<or> has_pattern rules (replace old new s)"
  proof (cases "sublist old s")
    case True
    with old have "sublist new (replace old new s)" by (rule replace_present)
    then have "sublist h (replace old new s)" using new by (rule sublist_chain)
    then show ?thesis ..
  next
    case False
    with old have "replace old new s = s" by (rule replace_absent)
    with Cons.prems(2) False rule show ?thesis
      by (auto simp: has_pattern_def)
  qed
  with Cons.IH [OF rest] rule show ?case by simp
qed

lemma call_rules_HiLog: "\<forall>(old, new)\<in>set call_rules. old \<noteq> [] \<and> sublist ''HiLog.'' new"
  unfolding call_rules_def by (simp add: sublist_Cons_right)


lemma collapse_keeps:
  assumes q: "q = ''Log'' @ q'"
    and A: "\<And>t. replace ''HiHiLog'' ''HiLog'' (q @ t) = q @ replace ''HiHiLog'' ''HiLog'' t"
    and A': "\<And>t. replace ''HiHiLog'' ''HiLog'' (q' @ t) = q' @ replace ''HiHiLog'' ''HiLog'' t"
    and s: "sublist q s"
  shows "sublist q (replace ''HiHiLog'' ''HiLog'' s)"
  using s
proof (induction s rule: length_induct)
  case (1 s)
  let ?c = "replace ''HiHiLog'' ''HiLog''"
  show ?case
  proof (cases "prefix ''HiHiLog'' s")
    case True
    then obtain t where t: "s = ''HiHiLog'' @ t" by (auto simp: prefix_def)
    have out: "?c s = ''HiLog'' @ ?c t" unfolding t by simp
    from "1.prems" have "prefix q' t \<or> sublist q t"
      unfolding t q by (simp add: sublist_Cons_right)
    then show ?thesis
    proof
      assume "prefix q' t"
      then obtain u where "t = q' @ u" by (auto simp: prefix_def)
      then have "?c s = ''Hi'' @ q @ ?c u"
        unfolding out by (simp add: A' q)
      then show ?thesis by (metis sublist_appendI)
    next
      assume "sublist q t"
      moreover have "length t < length s" unfolding t by simp
      ultimately have "sublist q (?c t)" using "1.IH" by blast
      then show ?thesis unfolding out
        by (metis sublist_append)
    qed
  next
    case False
    show ?thesis
    proof (cases s)
      case Nil
      with "1.prems" q show ?thesis by simp
    next
      case (Cons c cs)
      from False have np: "\<not> prefix ''HiHiLog'' (c # cs)"
        unfolding Cons .
      have "?c (c # cs) = (if prefix ''HiHiLog'' (c # cs)
          then ''HiLog'' @ ?c (drop (length ''HiHiLog'') (c # cs)) else c # ?c cs)"
        by (rule replace_Cons) simp
      with np have out: "?c s = c # ?c cs"
        unfolding Cons by (simp only: if_False)
      from "1.prems" Cons have "prefix q s \<or> sublist q cs"
        by (simp add: sublist_Cons_right)
      then show ?thesis
      proof
        assume "prefix q s"
        then obtain u where "s = q @ u" by (auto simp: prefix_def)
        then have "?c s = q @ ?c u" by (simp add: A)
        then show ?thesis by simp
      next
        assume "sublist q cs"
        moreover have "length cs < length s" unfolding Cons by simp
        ultimately have "sublist q (?c cs)" using "1.IH" by blast
        then show ?thesis unfolding out by (simp add: sublist_Cons_right)
      qed
    qed
  qed
qed

lemma collapse_keeps_patterns:
  "\<forall>(q, r)\<in>set call_rules. sublist q s \<longrightarrow> sublist q (replace ''HiHiLog'' ''HiLog'' s)"
  unfolding call_rules_def
  by (auto intro!: collapse_keeps)


lemma fix_body_collapse: "fix_body b = rewrite call_rules (replace ''HiHiLog'' ''HiLog'' b)"
  by (simp add: fix_body_rewrite all_rules_def)

lemma fix_body_introduces:
  assumes "has_pattern call_rules b"
  shows "contains (fix_body b) ''HiLog.''"
proof -
  from assms have "has_pattern call_rules (replace ''HiHiLog'' ''HiLog'' b)"
    using collapse_keeps_patterns [of b] unfolding has_pattern_def list_ex_iff by fast
  then show ?thesis
    unfolding fix_body_collapse using call_rules_HiLog by (intro rewrite_introduces) auto
qed


lemma prefix_before:
  assumes "\<not> sublist old L"
    and "\<forall>us\<in>set (suffixes (tl old)). us \<noteq> [] \<longrightarrow> \<not> prefix us L"
  shows "prefix old (xs @ L) \<longleftrightarrow> prefix old xs"
proof
  assume "prefix old (xs @ L)"
  then consider "prefix old xs" | us where "old = xs @ us" "prefix us L"
    by (auto simp: prefix_append)
  then show "prefix old xs"
  proof cases
    case 1
    then show ?thesis .
  next
    case 2
    show ?thesis
    proof (cases "us = []")
      case True
      with 2 show ?thesis by simp
    next
      case False
      show ?thesis
      proof (cases xs)
        case Nil
        with 2 assms(1) show ?thesis by auto
      next
        case (Cons x xs')
        with 2(1) have "suffix us (tl old)" by (simp add: suffix_def)
        then have "us \<in> set (suffixes (tl old))" by (simp only: in_set_suffixes)
        with assms(2) False 2(2) show ?thesis by blast
      qed
    qed
  qed
next
  assume "prefix old xs"
  then show "prefix old (xs @ L)" by (rule prefix_prefix)
qed

lemma replace_before:
  assumes "old \<noteq> []" and "\<not> sublist old L"
    and "\<forall>us\<in>set (suffixes (tl old)). us \<noteq> [] \<longrightarrow> \<not> prefix us L"
  shows "replace old new (xs @ L) = replace old new xs @ L"
  using assms
proof (induction old new xs rule: replace.induct)
  case (1 old new)
  then show ?case by (simp add: replace_absent)
next
  case (2 old new x xs)
  have pre: "prefix old ((x # xs) @ L) \<longleftrightarrow> prefix old (x # xs)"
    using "2.prems"(2,3) by (rule prefix_before)
  show ?case
  proof (cases "prefix old (x # xs)")
    case True
    then have "length old \<le> length (x # xs)" by (rule prefix_length_le)
    then have "drop (length old) ((x # xs) @ L) = drop (length old) (x # xs) @ L"
      by (simp only: drop_append) simp
    with 2 True pre show ?thesis by simp
  next
    case False
    with 2 pre show ?thesis by simp
  qed
qed

lemma rewrite_before:
  assumes "\<forall>(old, new)\<in>set rules. old \<noteq> [] \<and> \<not> sublist old L \<and>
      (\<forall>us\<in>set (suffixes (tl old)). us \<noteq> [] \<longrightarrow> \<not> prefix us L)"
  shows "rewrite rules (xs @ L) = rewrite rules xs @ L"
  using assms
proof (induction rules arbitrary: xs)
  case Nil
  then show ?case by simp
next
  case (Cons rule rules)
  obtain old new where rule: "rule = (old, new)" by (cases rule)
  from Cons.prems rule have "replace old new (xs @ L) = replace old new xs @ L"
    by (intro replace_before) auto
  moreover from Cons.prems
  have "rewrite rules (replace old new xs @ L) = rewrite rules (replace old new xs) @ L"
    by (intro Cons.IH) auto
  ultimately show ?case by (simp add: rule)
qed


lemma collapse_before:
  assumes "\<not> sublist ''HiHiLog'' (''Log.'' @ m)"
  shows "\<exists>pre'. replace ''HiHiLog'' ''HiLog'' (xs @ ''Log.'' @ m) = pre' @ ''Log.'' @ m"
proof (induction xs rule: length_induct)
  case (1 xs)
  let ?c = "replace ''HiHiLog'' ''HiLog''"
  let ?L = "''Log.'' @ m"
  from assms have Lc: "?c ?L = ?L"
    by (intro replace_absent) simp_all
  from assms have "\<not> sublist ''HiHiLog'' (CHR ''.'' # m)"
    by (simp add: sublist_Cons_right)
  then have dot: "?c (CHR ''.'' # m) = CHR ''.'' # m"
    by (intro replace_absent) simp_all
  show ?case
  proof (cases "prefix ''HiHiLog'' (xs @ ?L)")
    case True
    show ?thesis
    proof (cases "length xs < 7")
      case True
      from \<open>prefix ''HiHiLog'' (xs @ ?L)\<close> have "prefix xs ''HiHiLog''"
        using True by (intro prefix_length_prefix [of xs "xs @ ?L" "''HiHiLog''"]) simp_all
      then have "xs \<in> set (prefixes ''HiHiLog'')"
        by (simp only: in_set_prefixes)
      then have "xs = ''HiHi''"
        using \<open>prefix ''HiHiLog'' (xs @ ?L)\<close> True by auto
      then have "?c (xs @ ?L) = ''Hi'' @ ?L"
        using dot by simp
      then show ?thesis by blast
    next
      case False
      then have d: "drop 7 (xs @ ?L) = drop 7 xs @ ?L" by simp
      from False obtain x xs' where xs: "xs = x # xs'" by (cases xs) auto
      from \<open>prefix ''HiHiLog'' (xs @ ?L)\<close> have p: "prefix ''HiHiLog'' (x # (xs' @ ?L))"
        unfolding xs by (simp only: append_Cons simp_thms)
      have "?c (x # (xs' @ ?L)) = (if prefix ''HiHiLog'' (x # (xs' @ ?L))
          then ''HiLog'' @ ?c (drop (length ''HiHiLog'') (x # (xs' @ ?L)))
          else x # ?c (xs' @ ?L))"
        by (rule replace_Cons) simp
      with p have "?c (x # (xs' @ ?L)) = ''HiLog'' @ ?c (drop (length ''HiHiLog'') (x # (xs' @ ?L)))"
        by (simp only: if_True)
      moreover have "length ''HiHiLog'' = 7" by simp
      ultimately have "?c (xs @ ?L) = ''HiLog'' @ ?c (drop 7 (xs @ ?L))"
        unfolding xs by (simp only: append_Cons simp_thms)
      then have out: "?c (xs @ ?L) = ''HiLog'' @ ?c (drop 7 xs @ ?L)"
        unfolding d .
      have "length (drop 7 xs) < length xs" unfolding xs by simp
      with "1.IH" obtain pre' where "?c (drop 7 xs @ ?L) = pre' @ ?L" by blast
      with out have "?c (xs @ ?L) = (''HiLog'' @ pre') @ ?L" by simp
      then show ?thesis by blast
    qed
  next
    case False
    show ?thesis
    proof (cases xs)
      case Nil
      with Lc have "?c (xs @ ?L) = [] @ ?L" by simp
      then show ?thesis by blast
    next
      case (Cons x xs')
      from False have np: "\<not> prefix ''HiHiLog'' (x # (xs' @ ?L))"
        unfolding Cons by (simp only: append_Cons simp_thms)
      have "?c (x # (xs' @ ?L)) = (if prefix ''HiHiLog'' (x # (xs' @ ?L))
          then ''HiLog'' @ ?c (drop (length ''HiHiLog'') (x # (xs' @ ?L)))
          else x # ?c (xs' @ ?L))"
        by (rule replace_Cons) simp
      with np have out: "?c (xs @ ?L) = x # ?c (xs' @ ?L)"
        unfolding Cons by (simp only: if_False append_Cons)
      have "length xs' < length xs" unfolding Cons by simp
      with "1.IH" obtain pre' where "?c (xs' @ ?L) = pre' @ ?L" by blast
      with out have "?c (xs @ ?L) = (x # pre') @ ?L" by simp
      then show ?thesis by blast
    qed
  qed
qed


lemma has_pattern_iff:
  "has_pattern rules s \<longleftrightarrow> (\<exists>(old, new)\<in>set rules. sublist old s)"
  by (simp add: has_pattern_def list_ex_iff)

lemma has_pattern_mono: "has_pattern rules s \<Longrightarrow> sublist s s' \<Longrightarrow> has_pattern rules s'"
  unfolding has_pattern_iff by (auto intro: sublist_chain)

lemma call_rules_no_straddle:
  "\<forall>(old, new)\<in>set call_rules. old \<noteq> [] \<and>
     (\<forall>us\<in>set (suffixes (tl old)). us \<noteq> [] \<longrightarrow> \<not> prefix us (''Log.'' @ args))"
  by (simp add: call_rules_def)

lemma paren_not_in_pattern: "\<not> in_pattern CHR '')''"
  by (simp add: in_pattern_def all_rules_def call_rules_def)


lemma replace_hd:
  assumes "old \<noteq> []" and "new \<noteq> []" and "s \<noteq> []"
  shows "replace old new s \<noteq> [] \<and> (hd (replace old new s) = hd s \<or> hd (replace old new s) = hd new)"
  using assms by (cases s) auto

lemma replace_last:
  assumes "old \<noteq> []" and "new \<noteq> []" and "s \<noteq> []"
  shows "last (replace old new s) = last s \<or> last (replace old new s) = last new"
  using assms
proof (induction old new s rule: replace.induct)
  case (1 old new)
  then show ?case by simp
next
  case (2 old new c cs)
  show ?case
  proof (cases "prefix old (c # cs)")
    case True
    show ?thesis
    proof (cases "drop (length old) (c # cs) = []")
      case e: True
      with True 2 show ?thesis by simp
    next
      case ne: False
      then have "length old < length (c # cs)"
        unfolding drop_eq_Nil by simp
      then have l: "last (drop (length old) (c # cs)) = last (c # cs)"
        by (rule last_drop)
      from ne 2 True
      have ih: "last (replace old new (drop (length old) (c # cs))) = last (drop (length old) (c # cs))
          \<or> last (replace old new (drop (length old) (c # cs))) = last new"
        by simp
      from replace_hd [OF "2.prems"(1,2) ne]
      have "replace old new (drop (length old) (c # cs)) \<noteq> []" by blast
      with True "2.prems" ih l show ?thesis by (simp del: drop_Suc_Cons)
    qed
  next
    case False
    show ?thesis
    proof (cases "cs = []")
      case True
      with False 2 show ?thesis by simp
    next
      case ne: False
      from replace_hd [OF "2.prems"(1,2) ne]
      have "replace old new cs \<noteq> []" by blast
      with False ne 2 show ?thesis by simp
    qed
  qed
qed

lemma replace_stripped:
  assumes "old \<noteq> []" and "new \<noteq> []" and "\<not> isspace (hd new)" and "\<not> isspace (last new)"
    and "stripped s"
  shows "stripped (replace old new s)"
proof (cases "s = []")
  case True
  with assms(1) show ?thesis by (simp add: stripped_def)
next
  case False
  with assms(5) have "\<not> isspace (hd s)" "\<not> isspace (last s)"
    by (auto simp: stripped_def)
  with replace_hd [OF assms(1,2) False] replace_last [OF assms(1,2) False] assms(3,4)
  show ?thesis by (auto simp: stripped_def)
qed

lemma rewrite_stripped:
  assumes "\<forall>(old, new)\<in>set rules. old \<noteq> [] \<and> new \<noteq> [] \<and> \<not> isspace (hd new) \<and> \<not> isspace (last new)"
    and "stripped s"
  shows "stripped (rewrite rules s)"
  using assms
proof (induction rules arbitrary: s)
  case Nil
  then show ?case by simp
next
  case (Cons rule rules)
  obtain old new where rule: "rule = (old, new)" by (cases rule)
  with Cons.prems have "stripped (replace old new s)"
    by (intro replace_stripped) auto
  with Cons show ?case by (simp add: rule)
qed

lemma all_rules_new:
  "\<forall>(old, new)\<in>set all_rules. old \<noteq> [] \<and> new \<noteq> [] \<and> \<not> isspace (hd new) \<and>
     \<not> isspace (last new) \<and> hd new = CHR ''H'' \<and> CHR ''\<newline>'' \<notin> set new"
  by (simp add: all_rules_def call_rules_def isspace_def)

lemma fix_body_stripped: "stripped s \<Longrightarrow> stripped (fix_body s)"
  unfolding fix_body_rewrite using all_rules_new by (intro rewrite_stripped) auto

lemma fix_body_Nil [simp]: "fix_body [] = []"
  by (simp add: fix_body_def)

lemma fix_body_pad_left:
  "\<forall>c\<in>set w. \<not> in_pattern c \<Longrightarrow> fix_body (w @ s) = w @ fix_body s"
proof (induction w)
  case Nil
  then show ?case by simp
next
  case (Cons c w)
  then have "fix_body ([] @ c # (w @ s)) = fix_body [] @ c # fix_body (w @ s)"
    by (intro fix_body_split) simp
  with Cons show ?case by simp
qed

lemma fix_body_pad_right:
  assumes "\<forall>c\<in>set w. \<not> in_pattern c"
  shows "fix_body (s @ w) = fix_body s @ w"
proof (cases w)
  case Nil
  then show ?thesis by simp
next
  case (Cons c w')
  with assms have "fix_body (s @ c # w') = fix_body s @ c # fix_body w'"
    by (intro fix_body_split) simp
  moreover from assms Cons have "fix_body (w' @ []) = w' @ fix_body []"
    by (intro fix_body_pad_left) simp
  ultimately show ?thesis by (simp add: Cons)
qed

lemma strip_parts:
  "l = takeWhile isspace l @ strip l @ rev (takeWhile isspace (rev (dropWhile isspace l)))"
proof -
  have "l = takeWhile isspace l @ dropWhile isspace l" by simp
  moreover have "dropWhile isspace l
      = strip l @ rev (takeWhile isspace (rev (dropWhile isspace l)))"
    unfolding strip_def by (rule rstrip_prefix)
  ultimately show ?thesis by simp
qed

lemma strip_pad:
  assumes "\<forall>c\<in>set w1. isspace c" and "\<forall>c\<in>set w2. isspace c" and "stripped m"
  shows "strip (w1 @ m @ w2) = m"
proof (cases "m = []")
  case True
  with assms(1,2) have "dropWhile isspace (w1 @ m @ w2) = []" by simp
  with True show ?thesis by (simp only: strip_def) simp
next
  case False
  with assms(3) have h: "\<not> isspace (hd m)" and l: "\<not> isspace (last m)"
    by (auto simp: stripped_def)
  from assms(1) have "dropWhile isspace (w1 @ m @ w2) = dropWhile isspace (m @ w2)"
    by (intro dropWhile_append2) simp
  also from False h have "\<dots> = m @ w2" by (cases m) auto
  finally have 1: "dropWhile isspace (w1 @ m @ w2) = m @ w2" .
  from assms(2) have "dropWhile isspace (rev w2 @ rev m) = dropWhile isspace (rev m)"
    by (intro dropWhile_append2) simp
  also from False l have "\<dots> = rev m" by (cases "rev m") (auto simp: last_rev hd_rev)
  finally have 2: "dropWhile isspace (rev (m @ w2)) = rev m" by simp
  show ?thesis by (simp only: strip_def 1 2 rev_rev_ident)
qed

lemma strip_fix_body: "strip (fix_body l) = fix_body (strip l)"
proof -
  let ?w1 = "takeWhile isspace l"
  let ?w2 = "rev (takeWhile isspace (rev (dropWhile isspace l)))"
  have w1: "\<forall>c\<in>set ?w1. isspace c" by (auto dest: set_takeWhileD)
  have w2: "\<forall>c\<in>set ?w2. isspace c" by (auto dest: set_takeWhileD)
  have "fix_body l = fix_body (?w1 @ (strip l @ ?w2))"
    using strip_parts [of l] by simp
  also have "\<dots> = ?w1 @ fix_body (strip l @ ?w2)"
    using w1 by (intro fix_body_pad_left) (auto dest: space_not_in_pattern)
  also have "\<dots> = ?w1 @ fix_body (strip l) @ ?w2"
    using w2 by (simp add: fix_body_pad_right space_not_in_pattern)
  finally have "fix_body l = ?w1 @ fix_body (strip l) @ ?w2" .
  moreover have "stripped (fix_body (strip l))"
    by (intro fix_body_stripped stripped_strip)
  ultimately show ?thesis using w1 w2 by (simp only: strip_pad)
qed



lemma replace_prefix_rev:
  assumes "old \<noteq> []" and "new \<noteq> []"
  shows "hd new \<notin> set q \<Longrightarrow> prefix q (replace old new s) \<Longrightarrow> prefix q s"
proof (induction q arbitrary: s)
  case Nil
  then show ?case by simp
next
  case (Cons c q)
  from Cons.prems(2) assms(1) obtain x xs where s: "s = x # xs"
    by (cases s) auto
  show ?case
  proof (cases "prefix old (x # xs)")
    case True
    with assms(1) have "replace old new s = new @ replace old new (drop (length old) (x # xs))"
      unfolding s by simp
    with Cons.prems(2) assms(2) have "c = hd new"
      by (cases new) auto
    with Cons.prems(1) show ?thesis by simp
  next
    case False
    with assms(1) have "replace old new s = x # replace old new xs"
      unfolding s by simp
    with Cons.prems(2) have "c = x" and "prefix q (replace old new xs)" by simp_all
    moreover from Cons.prems(1) have "hd new \<notin> set q" by simp
    ultimately show ?thesis
      unfolding s using Cons.IH by simp
  qed
qed

lemma rewrite_prefix_rev:
  assumes "\<forall>(old, new)\<in>set rules. old \<noteq> [] \<and> new \<noteq> [] \<and> hd new \<notin> set q"
  shows "prefix q (rewrite rules s) \<Longrightarrow> prefix q s"
  using assms
proof (induction rules arbitrary: s)
  case Nil
  then show ?case by simp
next
  case (Cons rule rules)
  obtain old new where rule: "rule = (old, new)" by (cases rule)
  from Cons.prems(2) rule have here: "old \<noteq> []" "new \<noteq> []" "hd new \<notin> set q"
    and rest: "\<forall>(old, new)\<in>set rules. old \<noteq> [] \<and> new \<noteq> [] \<and> hd new \<notin> set q"
    by auto
  from Cons.prems(1) have "prefix q (rewrite rules (replace old new s))"
    by (simp add: rule)
  then have "prefix q (replace old new s)"
    using rest by (rule Cons.IH)
  with here(3) show ?case
    by (rule replace_prefix_rev [OF here(1,2)])
qed

lemma fix_body_prefix_rev:
  assumes "CHR ''H'' \<notin> set q" and "prefix q (fix_body s)"
  shows "prefix q s"
proof -
  from assms(1) all_rules_new
  have "\<forall>(old, new)\<in>set all_rules. old \<noteq> [] \<and> new \<noteq> [] \<and> hd new \<notin> set q"
    by fastforce
  moreover from assms(2) have "prefix q (rewrite all_rules s)"
    by (simp only: fix_body_rewrite)
  ultimately show ?thesis by (rule rewrite_prefix_rev)
qed

lemma fix_body_is_package: "is_package (fix_body l) \<Longrightarrow> is_package l"
  unfolding is_package_def strip_fix_body by (rule fix_body_prefix_rev [rotated]) simp_all

lemma fix_body_is_import: "is_import (fix_body l) \<Longrightarrow> is_import l"
  unfolding is_import_def strip_fix_body by (rule fix_body_prefix_rev [rotated]) simp_all


lemma newline_not_in_pattern: "\<not> in_pattern CHR ''\<newline>''"
  by (rule space_not_in_pattern) simp

lemma set_rewrite:
  "c \<in> set (rewrite rules s) \<Longrightarrow> c \<in> set s \<or> (\<exists>(old, new)\<in>set rules. c \<in> set new)"
proof (induction rules arbitrary: s)
  case Nil
  then show ?case by simp
next
  case (Cons rule rules)
  obtain old new where rule: "rule = (old, new)" by (cases rule)
  from Cons.prems have "c \<in> set (rewrite rules (replace old new s))"
    by (simp add: rule)
  then have "c \<in> set (replace old new s) \<or> (\<exists>(old, new)\<in>set rules. c \<in> set new)"
    by (rule Cons.IH)
  with set_replace [of old new s] show ?case
    by (auto simp: rule)
qed

lemma fix_body_no_newline:
  "CHR ''\<newline>'' \<notin> set s \<Longrightarrow> CHR ''\<newline>'' \<notin> set (fix_body s)"
  unfolding fix_body_rewrite using all_rules_new by (fastforce dest: set_rewrite)

lemma rewrite_nonempty:
  "\<forall>(old, new)\<in>set rules. old \<noteq> [] \<and> new \<noteq> [] \<Longrightarrow> s \<noteq> [] \<Longrightarrow> rewrite rules s \<noteq> []"
proof (induction rules arbitrary: s)
  case Nil
  then show ?case by simp
next
  case (Cons rule rules)
  obtain old new where rule: "rule = (old, new)" by (cases rule)
  with Cons.prems have "replace old new s \<noteq> []"
    using replace_hd [of old new s] by auto
  with Cons show ?case by (simp add: rule)
qed

lemma fix_body_nonempty: "s \<noteq> [] \<Longrightarrow> fix_body s \<noteq> []"
  unfolding fix_body_rewrite using all_rules_new by (intro rewrite_nonempty) auto

lemma fix_body_complete:
  assumes "complete_line l"
  shows "complete_line (fix_body l)" and "fix_body (l @ rest) = fix_body l @ fix_body rest"
proof -
  from assms obtain b where l: "l = b @ ''\<newline>''" and b: "CHR ''\<newline>'' \<notin> set b"
    by (rule complete_lineE)
  have split: "fix_body (b @ CHR ''\<newline>'' # r) = fix_body b @ CHR ''\<newline>'' # fix_body r" for r
    using newline_not_in_pattern by (rule fix_body_split)
  from split [of "[]"] have fl: "fix_body l = fix_body b @ ''\<newline>''"
    by (simp add: l)
  from b have "CHR ''\<newline>'' \<notin> set (fix_body b)" by (rule fix_body_no_newline)
  then show "complete_line (fix_body l)"
    unfolding fl by (rule complete_lineI)
  from split [of rest] fl show "fix_body (l @ rest) = fix_body l @ fix_body rest"
    by (simp add: l)
qed

lemma fix_body_open: "open_line l \<Longrightarrow> open_line (fix_body l)"
  by (simp add: open_line_def fix_body_nonempty fix_body_no_newline)

lemma fix_body_lines:
  "wf_lines ls \<Longrightarrow> fix_body (concat ls) = concat (map fix_body ls) \<and> wf_lines (map fix_body ls)"
proof (induction ls)
  case Nil
  then show ?case by simp
next
  case (Cons l ls)
  show ?case
  proof (cases "ls = []")
    case True
    with Cons.prems show ?thesis
      by (auto simp: fix_body_complete fix_body_open)
  next
    case False
    with Cons.prems have l: "complete_line l" and ls: "wf_lines ls"
      by (simp_all add: wf_lines_Cons)
    from Cons.IH [OF ls] fix_body_complete [OF l] False show ?thesis
      by (simp add: wf_lines_Cons)
  qed
qed

lemma readlines_fix_body: "readlines (fix_body s) = map fix_body (readlines s)"
proof -
  have "wf_lines (readlines s)" by (rule wf_readlines)
  then have "fix_body (concat (readlines s)) = concat (map fix_body (readlines s))
      \<and> wf_lines (map fix_body (readlines s))"
    by (rule fix_body_lines)
  then have "fix_body s = concat (map fix_body (readlines s))"
    and "wf_lines (map fix_body (readlines s))"
    by simp_all
  then show ?thesis
    using readlines_wf [of "map fix_body (readlines s)"] by simp
qed


lemma prefix_append_cases: "prefix q (a @ b) \<Longrightarrow> prefix q a \<or> prefix a q"
  by (auto simp: prefix_append)

lemma replace_prefix_free:
  assumes "old \<noteq> []"
  shows "\<forall>u\<in>set (suffixes q). u \<noteq> [] \<longrightarrow> \<not> prefix u new \<and> \<not> prefix new u \<Longrightarrow>
     prefix q (replace old new s) \<Longrightarrow> prefix q s"
proof (induction q arbitrary: s)
  case Nil
  then show ?case by simp
next
  case (Cons c q)
  from Cons.prems(2) assms obtain x xs where s: "s = x # xs"
    by (cases s) auto
  from Cons.prems(1) have here: "\<not> prefix (c # q) new" "\<not> prefix new (c # q)"
    and rest: "\<forall>u\<in>set (suffixes q). u \<noteq> [] \<longrightarrow> \<not> prefix u new \<and> \<not> prefix new u"
    by auto
  show ?case
  proof (cases "prefix old (x # xs)")
    case True
    with assms have "replace old new s = new @ replace old new (drop (length old) (x # xs))"
      unfolding s by simp
    with Cons.prems(2) have "prefix (c # q) new \<or> prefix new (c # q)"
      by (auto dest: prefix_append_cases)
    with here show ?thesis by blast
  next
    case False
    with assms have "replace old new s = x # replace old new xs"
      unfolding s by simp
    with Cons.prems(2) have "c = x" and "prefix q (replace old new xs)" by simp_all
    with rest show ?thesis
      unfolding s using Cons.IH by simp
  qed
qed

lemma collapse_reflects:
  assumes q: "q = a # qt"
    and free: "\<forall>u\<in>set (suffixes qt). u \<noteq> [] \<longrightarrow> \<not> prefix u ''HiLog'' \<and> \<not> prefix ''HiLog'' u"
    and qk: "suffix qk qt"
    and A: "\<And>ct. sublist q (''HiLog'' @ ct) \<Longrightarrow> sublist q ct \<or> prefix qk ct"
    and B: "\<And>t. prefix qk t \<Longrightarrow> sublist q (''HiHiLog'' @ t)"
  shows "sublist q (replace ''HiHiLog'' ''HiLog'' s) \<Longrightarrow> sublist q s"
proof (induction s rule: length_induct)
  case (1 s)
  let ?c = "replace ''HiHiLog'' ''HiLog''"
  have freek: "\<forall>u\<in>set (suffixes qk). u \<noteq> [] \<longrightarrow> \<not> prefix u ''HiLog'' \<and> \<not> prefix ''HiLog'' u"
  proof (intro ballI impI)
    fix u assume "u \<in> set (suffixes qk)" and ne: "u \<noteq> []"
    then have "suffix u qk" by (simp only: in_set_suffixes)
    with qk have "suffix u qt" by (meson suffix_order.trans)
    then have "u \<in> set (suffixes qt)" by (simp only: in_set_suffixes)
    with free ne show "\<not> prefix u ''HiLog'' \<and> \<not> prefix ''HiLog'' u" by blast
  qed
  show ?case
  proof (cases "prefix ''HiHiLog'' s")
    case True
    then obtain t where t: "s = ''HiHiLog'' @ t" by (auto simp: prefix_def)
    have out: "?c s = ''HiLog'' @ ?c t" unfolding t by simp
    from "1.prems" have "sublist q (?c t) \<or> prefix qk (?c t)"
      unfolding out by (rule A)
    then show ?thesis
    proof
      assume "sublist q (?c t)"
      moreover have "length t < length s" unfolding t by simp
      ultimately have "sublist q t" using "1.IH" by blast
      then show ?thesis unfolding t by (metis sublist_append)
    next
      assume "prefix qk (?c t)"
      with freek have "prefix qk t"
        by (intro replace_prefix_free [of "''HiHiLog''" qk "''HiLog''" t]) simp_all
      then show ?thesis unfolding t by (rule B)
    qed
  next
    case False
    show ?thesis
    proof (cases s)
      case Nil
      with "1.prems" show ?thesis by simp
    next
      case (Cons c cs)
      from False have np: "\<not> prefix ''HiHiLog'' (c # cs)"
        unfolding Cons .
      have "?c (c # cs) = (if prefix ''HiHiLog'' (c # cs)
          then ''HiLog'' @ ?c (drop (length ''HiHiLog'') (c # cs)) else c # ?c cs)"
        by (rule replace_Cons) simp
      with np have out: "?c s = c # ?c cs"
        unfolding Cons by (simp only: if_False)
      from "1.prems" have "prefix q (c # ?c cs) \<or> sublist q (?c cs)"
        unfolding out by (simp add: sublist_Cons_right)
      then show ?thesis
      proof
        assume "prefix q (c # ?c cs)"
        then have "a = c" and "prefix qt (?c cs)" unfolding q by simp_all
        from this(2) free have "prefix qt cs"
          by (intro replace_prefix_free [of "''HiHiLog''" qt "''HiLog''" cs]) simp_all
        with \<open>a = c\<close> have "prefix q s" unfolding q Cons by simp
        then show ?thesis by (rule prefix_imp_sublist)
      next
        assume "sublist q (?c cs)"
        moreover have "length cs < length s" unfolding Cons by simp
        ultimately have "sublist q cs" using "1.IH" by blast
        then show ?thesis unfolding Cons by (simp add: sublist_Cons_right)
      qed
    qed
  qed
qed

lemma collapse_reflects_HiLog:
  "sublist ''HiLog.'' (replace ''HiHiLog'' ''HiLog'' s) \<Longrightarrow> sublist ''HiLog.'' s"
proof (rule collapse_reflects [where qt = "''iLog.''" and qk = "''.''" and a = "CHR ''H''"])
  show "suffix ''.'' ''iLog.''" by (simp add: suffix_def)
qed (auto simp: sublist_Cons_right prefix_def)

lemma collapse_reflects_Log:
  assumes q: "q = ''Log'' @ q'"
    and free: "\<forall>u\<in>set (suffixes q'). u \<noteq> [] \<longrightarrow> \<not> prefix u ''HiLog'' \<and> \<not> prefix ''HiLog'' u"
    and s: "sublist q (replace ''HiHiLog'' ''HiLog'' s)"
  shows "sublist q s"
proof (rule collapse_reflects [where qt = "''og'' @ q'" and qk = q' and a = "CHR ''L''"])
  show "q = CHR ''L'' # ''og'' @ q'" by (simp add: q)
  show "\<forall>u\<in>set (suffixes (''og'' @ q')). u \<noteq> [] \<longrightarrow>
      \<not> prefix u ''HiLog'' \<and> \<not> prefix ''HiLog'' u"
    using free by (auto simp: suffixes_append)
  show "suffix q' (''og'' @ q')" by (simp add: suffix_def)
  show "sublist q ct \<or> prefix q' ct" if "sublist q (''HiLog'' @ ct)" for ct
    using that unfolding q by (auto simp: sublist_Cons_right)
  show "sublist q (''HiHiLog'' @ t)" if "prefix q' t" for t
    using that unfolding q by (simp add: sublist_Cons_right)
  show "sublist q (replace ''HiHiLog'' ''HiLog'' s)" by (rule s)
qed

lemma collapse_reflects_patterns:
  "\<forall>(q, r)\<in>set call_rules. sublist q (replace ''HiHiLog'' ''HiLog'' s) \<longrightarrow> sublist q s"
  unfolding call_rules_def
  by (auto intro!: collapse_reflects_Log)


section \<open>Reading back what was written\<close>

lemma wf_lines_elem: "wf_lines ls \<Longrightarrow> l \<in> set ls \<Longrightarrow> complete_line l \<or> open_line l"
  by (induction ls) (auto simp: wf_lines_Cons split: if_splits)

lemma set_strip: "set (strip s) \<subseteq> set s"
  by (auto simp: strip_def dest!: set_dropWhileD)

lemma strip_no_newline:
  assumes "complete_line l \<or> open_line l"
  shows "CHR ''\<newline>'' \<notin> set (strip l)"
  using assms
proof
  assume "complete_line l"
  then obtain b where l: "l = b @ ''\<newline>''" and b: "CHR ''\<newline>'' \<notin> set b"
    by (rule complete_lineE)
  have "strip l = strip b" unfolding l by (rule strip_snoc_space) simp
  with b set_strip [of b] show ?thesis by auto
next
  assume "open_line l"
  with set_strip [of l] show ?thesis by (auto simp: open_line_def)
qed

lemma terminated_complete:
  assumes "complete_line l \<or> open_line l"
  shows "complete_line (terminated l)"
  using assms
proof
  assume c: "complete_line l"
  then have "suffix ''\<newline>'' l"
    by (auto elim!: complete_lineE)
  with c show ?thesis by (simp add: terminated_def)
next
  assume o: "open_line l"
  then have "\<not> suffix ''\<newline>'' l"
    by (auto simp: open_line_def suffix_def)
  moreover from o have "complete_line (l @ ''\<newline>'')"
    by (intro complete_lineI) (simp add: open_line_def)
  ultimately show ?thesis by (simp add: terminated_def)
qed

lemma terminated_idem: "terminated (terminated l) = terminated l"
  by (simp add: terminated_def suffix_def)

lemma is_package_terminated: "is_package (terminated l) = is_package l"
  by (simp add: terminated_def is_package_newline)

lemma import_line:
  assumes "stripped i" and "prefix ''import '' i" and "CHR ''\<newline>'' \<notin> set i"
  shows "complete_line (i @ ''\<newline>'')" and "is_import (i @ ''\<newline>'')"
    and "strip (i @ ''\<newline>'') = i"
proof -
  from assms(3) show "complete_line (i @ ''\<newline>'')" by (rule complete_lineI)
  have "strip (i @ ''\<newline>'') = strip i" by (rule strip_snoc_space) simp
  with assms(1) show s: "strip (i @ ''\<newline>'') = i" by (simp add: strip_of_stripped)
  with assms(2) show "is_import (i @ ''\<newline>'')" by (simp add: is_import_def)
qed

lemma new_import_line:
  "stripped new_import" "prefix ''import '' new_import" "CHR ''\<newline>'' \<notin> set new_import"
  by (simp_all add: new_import_def stripped_def isspace_def)

lemma imports_of_line:
  assumes "i \<in> set (imports_of t)"
  shows "stripped i \<and> prefix ''import '' i \<and> CHR ''\<newline>'' \<notin> set i"
proof -
  from assms have "i \<in> imports_set (parsed t) \<or> i = new_import"
    by (auto simp: set_imports_of reconstruct_imports_eq split: if_splits)
  then show ?thesis
  proof
    assume "i \<in> imports_set (parsed t)"
    then obtain l where l: "l \<in> set (readlines t)" "is_import l" and i: "i = strip l"
      by (auto simp: parsed_imports)
    from l(1) have "complete_line l \<or> open_line l"
      using wf_readlines by (rule wf_lines_elem [rotated])
    then have "CHR ''\<newline>'' \<notin> set (strip l)" by (rule strip_no_newline)
    with l(2) show ?thesis
      unfolding i by (simp add: stripped_strip is_import_def)
  next
    assume "i = new_import"
    with new_import_line show ?thesis by simp
  qed
qed

lemma body_lines_other:
  assumes "l \<in> set (readlines (body_of t))"
  shows "\<not> is_package l \<and> \<not> is_import l"
proof -
  have "wf_lines (other_lines (parsed t))"
    unfolding parsed_other using wf_readlines by (rule wf_in_bucket)
  then have "readlines (concat (other_lines (parsed t))) = other_lines (parsed t)"
    by (rule readlines_wf)
  then have "readlines (body_of t) = map fix_body (other_lines (parsed t))"
    by (simp add: body_of_def readlines_fix_body)
  with assms obtain l0 where l0: "l0 \<in> set (other_lines (parsed t))" and l: "l = fix_body l0"
    by auto
  from l0 have "\<not> is_package l0 \<and> \<not> is_import l0"
    by (auto simp: parsed_other dest!: in_bucket_classify)
  then show ?thesis
    unfolding l using fix_body_is_package fix_body_is_import by blast
qed


lemma blank_line:
  "complete_line ''\<newline>''" "\<not> is_package ''\<newline>''" "\<not> is_import ''\<newline>''"
  by (simp_all add: complete_line_def is_package_def is_import_def strip_def)

lemma canonical_lines:
  assumes H: "\<forall>h\<in>set hs. complete_line h"
    and P: "complete_line p"
    and I: "\<forall>i\<in>set imps. CHR ''\<newline>'' \<notin> set i"
  shows "readlines (concat hs @ p @ ''\<newline>'' @ import_block imps @ ''\<newline>'' @ b)
     = hs @ p # ''\<newline>'' # map (\<lambda>i. i @ ''\<newline>'') imps @ ''\<newline>'' # readlines b"
proof -
  let ?ls = "hs @ p # ''\<newline>'' # map (\<lambda>i. i @ ''\<newline>'') imps @ [''\<newline>'']"
  from I have "\<forall>l\<in>set (map (\<lambda>i. i @ ''\<newline>'') imps). complete_line l"
    by (auto intro: complete_lineI)
  with H P blank_line(1) have "\<forall>l\<in>set ?ls. complete_line l"
    by auto
  then have "readlines (concat ?ls @ b) = ?ls @ readlines b"
    by (rule readlines_completes)
  then show ?thesis by (simp add: import_block_def)
qed

lemma canonical_parse:
  assumes H: "\<forall>h\<in>set hs. classify False h = Header"
    and P: "is_package p"
    and I: "\<forall>i\<in>set imps. is_import (i @ ''\<newline>'') \<and> strip (i @ ''\<newline>'') = i"
    and B: "\<forall>l\<in>set bl. \<not> is_package l \<and> \<not> is_import l"
  defines "ls \<equiv> hs @ p # ''\<newline>'' # map (\<lambda>i. i @ ''\<newline>'') imps @ ''\<newline>'' # bl"
  shows "in_bucket Header False ls = hs"
    and "in_bucket Body False ls = ''\<newline>'' # ''\<newline>'' # bl"
    and "filter is_package ls = [p]"
    and "strip ` set (filter is_import ls) = set imps"
proof -
  let ?il = "map (\<lambda>i. i @ ''\<newline>'') imps"
  from H have nh: "\<not> (\<exists>l\<in>set hs. is_package l)" by auto
  from H have hi: "\<forall>l\<in>set hs. \<not> is_import l" by auto
  from I have ii: "\<forall>l\<in>set ?il. is_import l" by auto
  then have ip: "\<forall>l\<in>set ?il. \<not> is_package l" by (auto dest: is_import_not_package)
  from P have pi: "\<not> is_import p" using is_import_not_package by blast
  show "in_bucket Header False ls = hs"
    unfolding ls_def using H P nh
    by (simp add: in_bucket_append in_bucket_all_header in_bucket_Cons in_bucket_Header_found)
  have "filter (\<lambda>l. \<not> is_package l \<and> \<not> is_import l) ?il = []"
    using ii by (simp add: filter_empty_conv)
  moreover have "filter (\<lambda>l. \<not> is_package l \<and> \<not> is_import l) bl = bl"
    using B by (simp add: filter_id_conv)
  ultimately show "in_bucket Body False ls = ''\<newline>'' # ''\<newline>'' # bl"
    unfolding ls_def using H P nh blank_line
    by (simp add: in_bucket_append in_bucket_all_header in_bucket_Cons in_bucket_Body_found)
  have "filter is_package hs = []" "filter is_package ?il = []" "filter is_package bl = []"
    using nh ip B by (simp_all add: filter_empty_conv)
  then show "filter is_package ls = [p]"
    unfolding ls_def using P blank_line by simp
  have "filter is_import hs = []" "filter is_import ?il = ?il" "filter is_import bl = []"
    using hi ii B by (simp_all add: filter_empty_conv filter_id_conv)
  then have "filter is_import ls = ?il"
    unfolding ls_def using pi blank_line by simp
  moreover from I have "strip ` set ?il = set imps" by force
  ultimately show "strip ` set (filter is_import ls) = set imps" by simp
qed


lemma fix_text_written: "has_package t \<Longrightarrow> fix_text t = Some (written t)"
  by (simp add: written_def fix_text_has_package)

lemma fix_text_Some_iff: "fix_text t = Some out \<longleftrightarrow> has_package t \<and> out = written t"
  by (cases "has_package t") (auto simp: fix_text_written fix_text_not_has_package)

lemma never_fixed: "''\<newline>\<newline>'' @ fix_body x \<noteq> x"
proof (induction x rule: length_induct)
  case (1 x)
  show ?case
  proof
    assume eq: "''\<newline>\<newline>'' @ fix_body x = x"
    let ?y = "fix_body x"
    have "fix_body (''\<newline>\<newline>'' @ ?y) = ''\<newline>\<newline>'' @ fix_body ?y"
      using newline_not_in_pattern by (intro fix_body_pad_left) simp
    with eq have "''\<newline>\<newline>'' @ fix_body ?y = ?y" by simp
    moreover from eq have "length ?y < length x"
      by (metis length_append length_Cons less_add_same_cancel2 zero_less_Suc add.commute)
    ultimately show False using "1.IH" by blast
  qed
qed

lemma second_parse:
  assumes "has_package t"
  shows "readlines (written t) = header_comments (parsed t)
       @ terminated (last (filter is_package (readlines t))) # ''\<newline>''
       # map (\<lambda>i. i @ ''\<newline>'') (imports_of t) @ ''\<newline>'' # readlines (body_of t)"
    and "header_comments (parsed (written t)) = header_comments (parsed t)"
    and "other_lines (parsed (written t)) = ''\<newline>'' # ''\<newline>'' # readlines (body_of t)"
    and "filter is_package (readlines (written t))
       = [terminated (last (filter is_package (readlines t)))]"
    and "imports_set (parsed (written t)) = set (imports_of t)"
proof -
  let ?hs = "header_comments (parsed t)"
  let ?pkg = "last (filter is_package (readlines t))"
  let ?imps = "imports_of t"
  let ?ls = "?hs @ terminated ?pkg # ''\<newline>'' # map (\<lambda>i. i @ ''\<newline>'') ?imps
       @ ''\<newline>'' # readlines (body_of t)"
  from assms have ex: "\<exists>l\<in>set (readlines t). is_package l"
    by (simp add: has_package_def)
  have hc: "\<forall>h\<in>set ?hs. complete_line h"
    unfolding parsed_header using wf_readlines ex by (rule header_complete)
  have hh: "\<forall>h\<in>set ?hs. classify False h = Header"
    unfolding parsed_header by (auto dest: in_bucket_Header_is)
  from ex have pk: "is_package ?pkg" by (rule last_package)
  from ex have "filter is_package (readlines t) \<noteq> []" by (simp add: filter_empty_conv)
  then have "?pkg \<in> set (filter is_package (readlines t))" by (rule last_in_set)
  then have "?pkg \<in> set (readlines t)" by simp
  with wf_readlines have "complete_line ?pkg \<or> open_line ?pkg" by (rule wf_lines_elem)
  then have pc: "complete_line (terminated ?pkg)" by (rule terminated_complete)
  from pk have pp: "is_package (terminated ?pkg)" by (simp add: is_package_terminated)
  have il: "\<forall>i\<in>set ?imps. stripped i \<and> prefix ''import '' i \<and> CHR ''\<newline>'' \<notin> set i"
    by (auto dest: imports_of_line)
  then have i1: "\<forall>i\<in>set ?imps. CHR ''\<newline>'' \<notin> set i" by blast
  from il have i2: "\<forall>i\<in>set ?imps. is_import (i @ ''\<newline>'') \<and> strip (i @ ''\<newline>'') = i"
    by (auto simp: import_line)
  have bl: "\<forall>l\<in>set (readlines (body_of t)). \<not> is_package l \<and> \<not> is_import l"
    by (auto dest: body_lines_other)
  have w: "written t = concat ?hs @ terminated ?pkg @ ''\<newline>'' @ import_block ?imps
      @ ''\<newline>'' @ body_of t"
    by (simp add: written_def write_back_parts)
  show rl: "readlines (written t) = ?ls"
    unfolding w using hc pc i1 by (rule canonical_lines)
  have "in_bucket Header False ?ls = ?hs"
    using hh pp i2 bl by (rule canonical_parse)
  then show "header_comments (parsed (written t)) = ?hs"
    unfolding parsed_header [of "written t"] rl .
  have "in_bucket Body False ?ls = ''\<newline>'' # ''\<newline>'' # readlines (body_of t)"
    using hh pp i2 bl by (rule canonical_parse)
  then show "other_lines (parsed (written t)) = ''\<newline>'' # ''\<newline>'' # readlines (body_of t)"
    unfolding parsed_other [of "written t"] rl .
  have "filter is_package ?ls = [terminated ?pkg]"
    using hh pp i2 bl by (rule canonical_parse)
  then show "filter is_package (readlines (written t)) = [terminated ?pkg]"
    unfolding rl .
  have "strip ` set (filter is_import ?ls) = set ?imps"
    using hh pp i2 bl by (rule canonical_parse)
  then show "imports_set (parsed (written t)) = set ?imps"
    unfolding parsed_imports [of "written t"] rl .
qed

lemma second_body:
  assumes "has_package t"
  shows "body_of (written t) = ''\<newline>\<newline>'' @ fix_body (body_of t)"
proof -
  have "body_of (written t) = fix_body (''\<newline>\<newline>'' @ concat (readlines (body_of t)))"
    by (simp add: body_of_def second_parse(3) [OF assms])
  also have "\<dots> = ''\<newline>\<newline>'' @ fix_body (concat (readlines (body_of t)))"
    using newline_not_in_pattern by (intro fix_body_pad_left) simp
  finally show ?thesis by simp
qed

lemma second_has_package:
  assumes "has_package t"
  shows "has_package (written t)"
proof -
  let ?p = "terminated (last (filter is_package (readlines t)))"
  have "?p \<in> set (filter is_package (readlines (written t)))"
    unfolding second_parse(4) [OF assms] by simp
  then show ?thesis by (auto simp: has_package_def)
qed

lemma second_written:
  assumes "has_package t"
  shows "written (written t) = concat (header_comments (parsed t))
     @ terminated (last (filter is_package (readlines t)))
     @ ''\<newline>'' @ import_block (imports_of (written t)) @ ''\<newline>''
     @ ''\<newline>\<newline>'' @ fix_body (body_of t)"
  unfolding written_def [of "written t"] write_back_parts
  by (simp add: second_parse(2,4) [OF assms] second_body [OF assms] terminated_idem)


lemma fix_body_twice_HiLog:
  assumes "contains (fix_body (fix_body b)) ''HiLog.''"
  shows "contains (fix_body b) ''HiLog.''"
proof (rule ccontr)
  let ?c = "replace ''HiHiLog'' ''HiLog''"
  assume n: "\<not> contains (fix_body b) ''HiLog.''"
  have rules: "\<forall>(old, new)\<in>set call_rules. old \<noteq> []"
    using call_rules_HiLog by fast
  have 1: "\<not> (sublist ''HiLog.'' (?c b) \<or> has_pattern call_rules (?c b))"
  proof
    assume "sublist ''HiLog.'' (?c b) \<or> has_pattern call_rules (?c b)"
    with call_rules_HiLog have "sublist ''HiLog.'' (rewrite call_rules (?c b))"
      by (rule rewrite_introduces)
    with n show False by (simp add: fix_body_collapse)
  qed
  then have "rewrite call_rules (?c b) = ?c b"
    using rules by (intro rewrite_absent) auto
  then have x: "fix_body b = ?c b" by (simp add: fix_body_collapse)
  from 1 have 2: "\<not> sublist ''HiLog.'' (?c (?c b))"
    using collapse_reflects_HiLog by blast
  from 1 have 3: "\<not> has_pattern call_rules (?c (?c b))"
    using collapse_reflects_patterns [of "?c b"] unfolding has_pattern_iff by fast
  from 3 rules have "rewrite call_rules (?c (?c b)) = ?c (?c b)"
    by (intro rewrite_absent) auto
  then have "fix_body (fix_body b) = ?c (?c b)"
    unfolding x by (simp add: fix_body_collapse)
  with 2 assms show False by simp
qed

lemma second_imports:
  assumes "has_package t"
  shows "imports_of (written t) = imports_of t"
proof -
  let ?R = "set (imports_of t)"
  have R: "?R = reconstruct_imports (imports_set (parsed t)) (body_of t)"
    by (rule set_imports_of)
  have new: "new_import \<in> ?R" if "contains (body_of (written t)) ''HiLog.''"
  proof -
    from that have "contains (fix_body (body_of t)) ''HiLog.''"
      unfolding second_body [OF assms] by (simp add: sublist_Cons_right)
    then have "contains (body_of t) ''HiLog.''"
      unfolding body_of_def by (rule fix_body_twice_HiLog)
    then show ?thesis unfolding R by (rule new_in_reconstruct)
  qed
  have old: "old_import \<notin> ?R" unfolding R by (rule old_not_in_reconstruct)
  have "reconstruct_imports ?R (body_of (written t)) = ?R"
    using new old by (auto simp: reconstruct_imports_eq)
  then have "imports_of (written t) = sorted_list_of_set ?R"
    by (simp add: imports_of_def [of "written t"] second_parse(5) [OF assms])
  also have "\<dots> = imports_of t"
    unfolding R by (simp add: imports_of_def)
  finally show ?thesis .
qed


section \<open>The claims\<close>

text \<open>
  C1, as the spec states it, fails on every file that is written. The two separating
  empty lines that a run writes after the package line and after the imports are read by
  the next run after the package line, so they are body lines of that run, which writes
  two separators of its own before them: \<open>package a\<close> with its line terminator becomes
  that line and two empty lines, and then that line and four empty lines.
\<close>

theorem second_run_differs:
  "fix_text ''package a\<newline>'' = Some ''package a\<newline>\<newline>\<newline>'' \<and>
   fix_text ''package a\<newline>\<newline>\<newline>'' = Some ''package a\<newline>\<newline>\<newline>\<newline>\<newline>'' \<and>
   ''package a\<newline>\<newline>\<newline>\<newline>\<newline>'' \<noteq> ''package a\<newline>\<newline>\<newline>'' \<and>
   fix_file_structure ''A.kt'' \<lparr>files = [''A.kt'' \<mapsto> Text ''package a\<newline>''], stdout = []\<rparr>
     = Inr \<lparr>files = [''A.kt'' \<mapsto> Text ''package a\<newline>\<newline>\<newline>''], stdout = [''Fixed A.kt'']\<rparr> \<and>
   fix_file_structure ''A.kt''
       \<lparr>files = [''A.kt'' \<mapsto> Text ''package a\<newline>\<newline>\<newline>''], stdout = [''Fixed A.kt'']\<rparr>
     = Inr \<lparr>files = [''A.kt'' \<mapsto> Text ''package a\<newline>\<newline>\<newline>\<newline>\<newline>''],
            stdout = [''Fixed A.kt'', ''Fixed A.kt'']\<rparr>"
proof -
  have a: "fix_text ''package a\<newline>'' = Some ''package a\<newline>\<newline>\<newline>''" by code_simp
  have b: "fix_text ''package a\<newline>\<newline>\<newline>'' = Some ''package a\<newline>\<newline>\<newline>\<newline>\<newline>''" by code_simp
  show ?thesis by (simp add: fix_file_structure_def a b)
qed

text \<open>
  C1, amended. For every text with a package line, a second run writes the header lines,
  the package line and the import block of the first run again, and after them a body
  that is two more empty lines followed by the first run's body rewritten once more. What
  the second run writes is never what the first run wrote; the same holds of the file of a
  world on which \<open>fix_file_structure\<close> runs twice.
\<close>

theorem second_run_grows:
  assumes "fix_text t = Some out"
  shows "out = concat (header_comments (parsed t))
       @ terminated (last (filter is_package (readlines t)))
       @ ''\<newline>'' @ import_block (imports_of t) @ ''\<newline>'' @ body_of t \<and>
     fix_text out = Some (concat (header_comments (parsed t))
       @ terminated (last (filter is_package (readlines t)))
       @ ''\<newline>'' @ import_block (imports_of t) @ ''\<newline>''
       @ ''\<newline>\<newline>'' @ fix_body (body_of t)) \<and>
     fix_text out \<noteq> Some out \<and>
     (files w filepath = Some (Text t) \<longrightarrow>
        (\<exists>w1 w2 out2. fix_file_structure filepath w = Inr w1 \<and>
           files w1 filepath = Some (Text out) \<and>
           fix_file_structure filepath w1 = Inr w2 \<and>
           files w2 filepath = Some (Text out2) \<and> out2 \<noteq> out))"
proof -
  from assms have hp: "has_package t" and out: "out = written t"
    by (simp_all add: fix_text_Some_iff)
  have 1: "written t = concat (header_comments (parsed t))
       @ terminated (last (filter is_package (readlines t)))
       @ ''\<newline>'' @ import_block (imports_of t) @ ''\<newline>'' @ body_of t"
    by (simp add: written_def write_back_parts)
  have 2: "fix_text (written t) = Some (written (written t))"
    using hp by (intro fix_text_written second_has_package)
  have 3: "written (written t) = concat (header_comments (parsed t))
       @ terminated (last (filter is_package (readlines t)))
       @ ''\<newline>'' @ import_block (imports_of t) @ ''\<newline>''
       @ ''\<newline>\<newline>'' @ fix_body (body_of t)"
    using second_written [OF hp] by (simp only: second_imports [OF hp])
  have 4: "written (written t) \<noteq> written t"
    unfolding 3 unfolding 1 using never_fixed [of "body_of t"] by simp
  have 5: "\<exists>w1 w2 out2. fix_file_structure filepath w = Inr w1 \<and>
           files w1 filepath = Some (Text (written t)) \<and>
           fix_file_structure filepath w1 = Inr w2 \<and>
           files w2 filepath = Some (Text out2) \<and> out2 \<noteq> written t"
    if w: "files w filepath = Some (Text t)"
  proof -
    let ?w1 = "w\<lparr>files := (files w)(filepath \<mapsto> Text (written t)),
        stdout := stdout w @ [''Fixed '' @ filepath]\<rparr>"
    let ?w2 = "?w1\<lparr>files := (files ?w1)(filepath \<mapsto> Text (written (written t))),
        stdout := stdout ?w1 @ [''Fixed '' @ filepath]\<rparr>"
    have "fix_file_structure filepath w = Inr ?w1"
      using w assms by (simp add: fix_file_structure_def out)
    moreover have "files ?w1 filepath = Some (Text (written t))" by simp
    moreover have "fix_file_structure filepath ?w1 = Inr ?w2"
      using 2 by (simp add: fix_file_structure_def)
    moreover have "files ?w2 filepath = Some (Text (written (written t)))" by simp
    ultimately show ?thesis using 4 by blast
  qed
  from 1 2 3 4 5 show ?thesis unfolding out by simp
qed

theorem second_run_grows_witness:
  \<open>fix_text ''// c\<newline>import android.util.Log\<newline>package a\<newline>HiLog.d(TAG, 1)''
     = Some ''// c\<newline>package a\<newline>\<newline>import com.coni.hyperisle.util.HiLog\<newline>\<newline>HiHiLog.d(HiLog.TAG_ISLAND, 1)'' \<and>
   fix_text ''// c\<newline>package a\<newline>\<newline>import com.coni.hyperisle.util.HiLog\<newline>\<newline>HiHiLog.d(HiLog.TAG_ISLAND, 1)''
     = Some ''// c\<newline>package a\<newline>\<newline>import com.coni.hyperisle.util.HiLog\<newline>\<newline>\<newline>\<newline>HiLog.d(HiLog.TAG_ISLAND, 1)'' \<and>
   fix_text ''// c\<newline>package a\<newline>\<newline>import com.coni.hyperisle.util.HiLog\<newline>\<newline>HiHiLog.d(HiLog.TAG_ISLAND, 1)''
     \<noteq> Some ''// c\<newline>package a\<newline>\<newline>import com.coni.hyperisle.util.HiLog\<newline>\<newline>HiHiLog.d(HiLog.TAG_ISLAND, 1)'' \<and>
   files \<lparr>files = [''A.kt'' \<mapsto>
       Text ''// c\<newline>import android.util.Log\<newline>package a\<newline>HiLog.d(TAG, 1)''], stdout = []\<rparr> ''A.kt''
     = Some (Text ''// c\<newline>import android.util.Log\<newline>package a\<newline>HiLog.d(TAG, 1)'') \<and>
   (\<exists>w1 w2 out2.
      fix_file_structure ''A.kt'' \<lparr>files = [''A.kt'' \<mapsto>
          Text ''// c\<newline>import android.util.Log\<newline>package a\<newline>HiLog.d(TAG, 1)''], stdout = []\<rparr>
        = Inr w1 \<and>
      files w1 ''A.kt'' = Some (Text
        ''// c\<newline>package a\<newline>\<newline>import com.coni.hyperisle.util.HiLog\<newline>\<newline>HiHiLog.d(HiLog.TAG_ISLAND, 1)'') \<and>
      fix_file_structure ''A.kt'' w1 = Inr w2 \<and>
      files w2 ''A.kt'' = Some (Text out2) \<and>
      out2 \<noteq> ''// c\<newline>package a\<newline>\<newline>import com.coni.hyperisle.util.HiLog\<newline>\<newline>HiHiLog.d(HiLog.TAG_ISLAND, 1)'')\<close>
proof -
  let ?t = \<open>''// c\<newline>import android.util.Log\<newline>package a\<newline>HiLog.d(TAG, 1)''\<close>
  let ?out = \<open>''// c\<newline>package a\<newline>\<newline>import com.coni.hyperisle.util.HiLog\<newline>\<newline>HiHiLog.d(HiLog.TAG_ISLAND, 1)''\<close>
  have a: "fix_text ?t = Some ?out" by code_simp
  have b: "concat (header_comments (parsed ?t))
       @ terminated (last (filter is_package (readlines ?t)))
       @ ''\<newline>'' @ import_block (imports_of ?t) @ ''\<newline>''
       @ ''\<newline>\<newline>'' @ fix_body (body_of ?t)
     = ''// c\<newline>package a\<newline>\<newline>import com.coni.hyperisle.util.HiLog\<newline>\<newline>\<newline>\<newline>HiLog.d(HiLog.TAG_ISLAND, 1)''"
    by code_simp
  let ?w = "\<lparr>files = [''A.kt'' \<mapsto> Text ?t], stdout = []\<rparr>"
  have f: "files ?w ''A.kt'' = Some (Text ?t)" by simp
  from second_run_grows [OF a, of ?w "''A.kt''"] f
  have g: "\<exists>w1 w2 out2. fix_file_structure ''A.kt'' ?w = Inr w1 \<and>
      files w1 ''A.kt'' = Some (Text ?out) \<and> fix_file_structure ''A.kt'' w1 = Inr w2 \<and>
      files w2 ''A.kt'' = Some (Text out2) \<and> out2 \<noteq> ?out"
    by blast
  from second_run_grows [OF a]
  have c: "fix_text ?out = Some (concat (header_comments (parsed ?t))
       @ terminated (last (filter is_package (readlines ?t)))
       @ ''\<newline>'' @ import_block (imports_of ?t) @ ''\<newline>''
       @ ''\<newline>\<newline>'' @ fix_body (body_of ?t))"
    and d: "fix_text ?out \<noteq> Some ?out"
    by blast+
  from c have e: "fix_text ?out
     = Some ''// c\<newline>package a\<newline>\<newline>import com.coni.hyperisle.util.HiLog\<newline>\<newline>\<newline>\<newline>HiLog.d(HiLog.TAG_ISLAND, 1)''"
    unfolding b .
  from a d e f g show ?thesis by blast
qed

text \<open>
  C2, as the spec states it, fails. The loop assigns \<open>package_line\<close> at every package
  line, so the one that is kept is the last: of \<open>package a\<close> and \<open>package b\<close> the
  file keeps \<open>package b\<close>.
\<close>

theorem first_package_not_kept:
  "length (filter is_package (readlines ''package a\<newline>package b\<newline>'')) = 2 \<and>
   hd (filter is_package (readlines ''package a\<newline>package b\<newline>'')) = ''package a\<newline>'' \<and>
   package_line (parse_lines init_state (readlines ''package a\<newline>package b\<newline>''))
     = Some ''package b\<newline>'' \<and>
   fix_text ''package a\<newline>package b\<newline>'' = Some ''package b\<newline>\<newline>\<newline>''"
  by code_simp

text \<open>
  C2, amended. When more than one line's stripped content starts with \<open>package \<close>, the
  line recorded and written as the package line is the last of them, and the earlier ones
  are dropped: no package line is among the header lines, the body lines or the imports.
\<close>

theorem last_package_wins:
  assumes "1 < length (filter is_package (readlines t))"
  shows "package_line (parsed t) = Some (last (filter is_package (readlines t))) \<and>
     fix_text t = Some (concat (header_comments (parsed t))
        @ terminated (last (filter is_package (readlines t)))
        @ ''\<newline>'' @ import_block (imports_of t) @ ''\<newline>'' @ body_of t) \<and>
     (\<forall>l \<in> set (header_comments (parsed t)) \<union> set (other_lines (parsed t)). \<not> is_package l) \<and>
     (\<forall>i \<in> set (imports_of t). \<not> is_package i)"
proof -
  from assms have "filter is_package (readlines t) \<noteq> []" by auto
  then have hp: "has_package t"
    by (simp add: has_package_def filter_empty_conv)
  have imp: "\<not> is_package i" if "i \<in> set (imports_of t)" for i
  proof -
    from that have "i \<in> imports_set (parsed t) \<or> i = new_import"
      by (auto simp: set_imports_of reconstruct_imports_eq split: if_splits)
    then show ?thesis
    proof
      assume "i \<in> imports_set (parsed t)"
      then obtain l where "is_import l" "i = strip l"
        by (auto simp: parsed_imports)
      then show ?thesis
        using is_import_not_package [of "strip l"]
        by (simp add: is_package_def is_import_def)
    next
      assume i: "i = new_import"
      have "\<not> is_package new_import"
        unfolding new_import_def by code_simp
      with i show ?thesis by simp
    qed
  qed
  show ?thesis
    using hp imp
    by (auto simp: parsed_package fix_text_has_package write_back_parts
        header_no_package other_no_package)
qed

theorem last_package_wins_witness:
  "1 < length (filter is_package (readlines ''package a\<newline>// c\<newline>package b\<newline>'')) \<and>
   package_line (parsed ''package a\<newline>// c\<newline>package b\<newline>'') = Some ''package b\<newline>'' \<and>
   fix_text ''package a\<newline>// c\<newline>package b\<newline>'' = Some ''package b\<newline>\<newline>\<newline>// c\<newline>''"
proof -
  let ?t = "''package a\<newline>// c\<newline>package b\<newline>''"
  have a: "1 < length (filter is_package (readlines ?t))" by code_simp
  have b: "last (filter is_package (readlines ?t)) = ''package b\<newline>''" by code_simp
  have c: "concat (header_comments (parsed ?t)) @ terminated ''package b\<newline>''
        @ ''\<newline>'' @ import_block (imports_of ?t) @ ''\<newline>'' @ body_of ?t
        = ''package b\<newline>\<newline>\<newline>// c\<newline>''" by code_simp
  from last_package_wins [OF a] b c show ?thesis using a by simp
qed

text \<open>
  C3, as the spec states it, fails. The collapse of \<open>HiHiLog\<close> runs over the whole body,
  so a call whose tag is no listed literal and whose level is no listed level is changed
  all the same when its text contains \<open>HiHiLog\<close>: \<open>Log.v("HiHiLog", 1)\<close> becomes
  \<open>Log.v("HiLog", 1)\<close>.
\<close>

theorem unlisted_call_changed:
  \<open>''Log.v("HiHiLog",'' \<notin> set (map fst call_rules) \<and>
   fix_body ''Log.v("HiHiLog", 1)'' = ''Log.v("HiLog", 1)'' \<and>
   \<not> contains (fix_body ''Log.v("HiHiLog", 1)'') ''Log.v("HiHiLog", 1)''\<close>
  by code_simp

text \<open>
  C3, amended. A logging call, from \<open>Log.\<close> to its closing parenthesis, whose text
  contains none of the thirteen pattern strings (\<open>HiHiLog\<close> and the twelve listed call
  prefixes), stands unchanged in the output body, whatever stands before and after it in
  the body: the output is some text, the call as it was, and the rewrite of what follows
  the call. The call alone is rewritten to itself. There is no other rewrite.
\<close>

theorem unlisted_call_unchanged:
  assumes "\<not> has_pattern all_rules (''Log.'' @ args @ '')'')"
  shows "(\<exists>pre'. fix_body (pre @ ''Log.'' @ args @ '')'' @ post)
            = pre' @ ''Log.'' @ args @ '')'' @ fix_body post) \<and>
         fix_body (''Log.'' @ args @ '')'') = ''Log.'' @ args @ '')''"
proof
  let ?L = "''Log.'' @ args"
  have sub: "sublist ?L (''Log.'' @ args @ '')'')"
    by (metis append.assoc sublist_append_rightI)
  with assms have noL: "\<not> has_pattern all_rules ?L"
    using has_pattern_mono by blast
  then have "\<not> sublist ''HiHiLog'' ?L"
    by (simp add: has_pattern_iff all_rules_def)
  then obtain pre1 where pre1: "replace ''HiHiLog'' ''HiLog'' (pre @ ?L) = pre1 @ ?L"
    using collapse_before [of args pre] by auto
  from noL have "\<forall>(old, new)\<in>set call_rules. \<not> sublist old ?L"
    by (auto simp: has_pattern_iff all_rules_def)
  with call_rules_no_straddle [of args]
  have "\<forall>(old, new)\<in>set call_rules. old \<noteq> [] \<and> \<not> sublist old ?L \<and>
      (\<forall>us\<in>set (suffixes (tl old)). us \<noteq> [] \<longrightarrow> \<not> prefix us ?L)"
    by fast
  then have "rewrite call_rules (pre1 @ ?L) = rewrite call_rules pre1 @ ?L"
    by (rule rewrite_before)
  with pre1 have "fix_body (pre @ ?L) = rewrite call_rules pre1 @ ?L"
    by (simp add: fix_body_collapse)
  moreover have "fix_body ((pre @ ?L) @ CHR '')'' # post)
      = fix_body (pre @ ?L) @ CHR '')'' # fix_body post"
    using paren_not_in_pattern by (rule fix_body_split)
  ultimately have "fix_body (pre @ ''Log.'' @ args @ '')'' @ post)
      = rewrite call_rules pre1 @ ''Log.'' @ args @ '')'' @ fix_body post"
    by simp
  then show "\<exists>pre'. fix_body (pre @ ''Log.'' @ args @ '')'' @ post)
            = pre' @ ''Log.'' @ args @ '')'' @ fix_body post"
    by blast
next
  from assms show "fix_body (''Log.'' @ args @ '')'') = ''Log.'' @ args @ '')''"
    unfolding fix_body_rewrite using all_rules_nonempty by (intro rewrite_absent) auto
qed

theorem unlisted_call_unchanged_witness:
  \<open>\<not> has_pattern all_rules (''Log.'' @ ''v(myTag + 1, "x"'' @ '')'') \<and>
   (\<exists>pre'. fix_body (''Log.d(TAG, 1); '' @ ''Log.'' @ ''v(myTag + 1, "x"'' @ '')'' @ ''; Log.i(TAG, 2)'')
            = pre' @ ''Log.'' @ ''v(myTag + 1, "x"'' @ '')'' @ fix_body ''; Log.i(TAG, 2)'') \<and>
   fix_body ''Log.d(TAG, 1); Log.v(myTag + 1, "x"); Log.i(TAG, 2)''
     = ''HiLog.d(HiLog.TAG_ISLAND, 1); Log.v(myTag + 1, "x"); HiLog.i(HiLog.TAG_ISLAND, 2)''\<close>
proof -
  have a: \<open>\<not> has_pattern all_rules (''Log.'' @ ''v(myTag + 1, "x"'' @ '')'')\<close> by code_simp
  have b: \<open>fix_body ''Log.d(TAG, 1); Log.v(myTag + 1, "x"); Log.i(TAG, 2)''
     = ''HiLog.d(HiLog.TAG_ISLAND, 1); Log.v(myTag + 1, "x"); HiLog.i(HiLog.TAG_ISLAND, 2)''\<close>
    by code_simp
  from unlisted_call_unchanged [OF a, of "''Log.d(TAG, 1); ''" "''; Log.i(TAG, 2)''"] a b
  show ?thesis by blast
qed

text \<open>
  C4, as the spec states it, fails in two ways. A recognized pattern that stands in a
  header comment is not in the body, so no \<open>HiLog.\<close> comes into the body and the new
  import is not written. And a file without a package line is not written at all: it keeps
  the old import and gets no new one.
\<close>

theorem import_hygiene_fails:
  "contains ''// Log.d(TAG, x)\<newline>package a\<newline>import android.util.Log\<newline>'' old_import \<and>
   contains ''// Log.d(TAG, x)\<newline>package a\<newline>import android.util.Log\<newline>'' ''Log.d(TAG,'' \<and>
   fix_text ''// Log.d(TAG, x)\<newline>package a\<newline>import android.util.Log\<newline>''
     = Some ''// Log.d(TAG, x)\<newline>package a\<newline>\<newline>\<newline>'' \<and>
   \<not> contains ''// Log.d(TAG, x)\<newline>package a\<newline>\<newline>\<newline>'' new_import \<and>
   contains ''import android.util.Log\<newline>Log.d(TAG, 1)\<newline>'' old_import \<and>
   contains ''import android.util.Log\<newline>Log.d(TAG, 1)\<newline>'' ''Log.d(TAG,'' \<and>
   fix_text ''import android.util.Log\<newline>Log.d(TAG, 1)\<newline>'' = None \<and>
   fix_file_structure ''A.kt''
       \<lparr>files = [''A.kt'' \<mapsto> Text ''import android.util.Log\<newline>Log.d(TAG, 1)\<newline>''], stdout = []\<rparr>
     = Inr \<lparr>files = [''A.kt'' \<mapsto> Text ''import android.util.Log\<newline>Log.d(TAG, 1)\<newline>''], stdout = []\<rparr>"
proof -
  have a: "fix_text ''import android.util.Log\<newline>Log.d(TAG, 1)\<newline>'' = None" by code_simp
  then have b: "fix_file_structure ''A.kt''
       \<lparr>files = [''A.kt'' \<mapsto> Text ''import android.util.Log\<newline>Log.d(TAG, 1)\<newline>''], stdout = []\<rparr>
     = Inr \<lparr>files = [''A.kt'' \<mapsto> Text ''import android.util.Log\<newline>Log.d(TAG, 1)\<newline>''], stdout = []\<rparr>"
    by (simp add: fix_file_structure_def)
  have c: "contains ''// Log.d(TAG, x)\<newline>package a\<newline>import android.util.Log\<newline>'' old_import \<and>
   contains ''// Log.d(TAG, x)\<newline>package a\<newline>import android.util.Log\<newline>'' ''Log.d(TAG,'' \<and>
   fix_text ''// Log.d(TAG, x)\<newline>package a\<newline>import android.util.Log\<newline>''
     = Some ''// Log.d(TAG, x)\<newline>package a\<newline>\<newline>\<newline>'' \<and>
   \<not> contains ''// Log.d(TAG, x)\<newline>package a\<newline>\<newline>\<newline>'' new_import \<and>
   contains ''import android.util.Log\<newline>Log.d(TAG, 1)\<newline>'' old_import \<and>
   contains ''import android.util.Log\<newline>Log.d(TAG, 1)\<newline>'' ''Log.d(TAG,''" by code_simp
  from a b c show ?thesis by blast
qed

text \<open>
  C4, amended. For every text with a package line, with a line whose stripped content is
  \<open>import android.util.Log\<close> and with one of the twelve call patterns in its body lines,
  the imports written contain \<open>import com.coni.hyperisle.util.HiLog\<close> and do not contain
  \<open>import android.util.Log\<close>.
\<close>

theorem import_hygiene:
  assumes "has_package t"
    and "\<exists>l\<in>set (readlines t). strip l = old_import"
    and "has_pattern call_rules (concat (in_bucket Body False (readlines t)))"
  shows "fix_text t = Some (concat (in_bucket Header False (readlines t))
        @ terminated (last (filter is_package (readlines t)))
        @ ''\<newline>'' @ import_block (imports_of t) @ ''\<newline>'' @ body_of t) \<and>
     new_import \<in> set (imports_of t) \<and> old_import \<notin> set (imports_of t)"
proof -
  from assms(3) have "contains (body_of t) ''HiLog.''"
    unfolding body_of_def parsed_other by (rule fix_body_introduces)
  then have "new_import \<in> set (imports_of t)"
    by (simp add: set_imports_of new_in_reconstruct)
  with assms(1) show ?thesis
    by (simp add: fix_text_has_package write_back_parts parsed_header set_imports_of
        old_not_in_reconstruct)
qed

theorem import_hygiene_witness:
  "has_package ''package a\<newline>import android.util.Log\<newline>Log.w(TAG, 1)\<newline>'' \<and>
   (\<exists>l\<in>set (readlines ''package a\<newline>import android.util.Log\<newline>Log.w(TAG, 1)\<newline>'').
      strip l = old_import) \<and>
   has_pattern call_rules (concat (in_bucket Body False
      (readlines ''package a\<newline>import android.util.Log\<newline>Log.w(TAG, 1)\<newline>''))) \<and>
   new_import \<in> set (imports_of ''package a\<newline>import android.util.Log\<newline>Log.w(TAG, 1)\<newline>'') \<and>
   old_import \<notin> set (imports_of ''package a\<newline>import android.util.Log\<newline>Log.w(TAG, 1)\<newline>'') \<and>
   fix_text ''package a\<newline>import android.util.Log\<newline>Log.w(TAG, 1)\<newline>''
     = Some ''package a\<newline>\<newline>import com.coni.hyperisle.util.HiLog\<newline>\<newline>HiLog.w(HiLog.TAG_ISLAND, 1)\<newline>''"
proof -
  let ?t = "''package a\<newline>import android.util.Log\<newline>Log.w(TAG, 1)\<newline>''"
  have a: "has_package ?t" unfolding has_package_code by code_simp
  have b: "\<exists>l\<in>set (readlines ?t). strip l = old_import" by code_simp
  have c: "has_pattern call_rules (concat (in_bucket Body False (readlines ?t)))" by code_simp
  have d: "concat (in_bucket Header False (readlines ?t))
        @ terminated (last (filter is_package (readlines ?t)))
        @ ''\<newline>'' @ import_block (imports_of ?t) @ ''\<newline>'' @ body_of ?t
      = ''package a\<newline>\<newline>import com.coni.hyperisle.util.HiLog\<newline>\<newline>HiLog.w(HiLog.TAG_ISLAND, 1)\<newline>''"
    by code_simp
  from import_hygiene [OF a b c] a b c d show ?thesis by simp
qed

text \<open>
  C5. For every text with a package line, wherever its header comments, package line,
  imports and body lines stand, the text written is: the header lines, the package line
  ending in a line terminator, an empty line, the imports in ascending order without
  repetition, each followed by a line terminator, an empty line, the rewritten body.
\<close>

theorem output_order:
  assumes "has_package t"
  shows "fix_text t = Some (concat (in_bucket Header False (readlines t))
        @ terminated (last (filter is_package (readlines t)))
        @ ''\<newline>'' @ import_block (imports_of t) @ ''\<newline>'' @ body_of t) \<and>
     endswith (terminated (last (filter is_package (readlines t)))) ''\<newline>'' \<and>
     import_block (imports_of t) = concat (map (\<lambda>imp. imp @ ''\<newline>'') (imports_of t)) \<and>
     sorted (imports_of t) \<and> distinct (imports_of t) \<and>
     set (imports_of t) =
       reconstruct_imports (strip ` set (filter is_import (readlines t))) (body_of t) \<and>
     body_of t = fix_body (concat (in_bucket Body False (readlines t)))"
  using assms
  by (simp add: fix_text_has_package write_back_parts parsed_header terminated_ends
      import_block_def sorted_imports_of set_imports_of parsed_imports body_of_def parsed_other)

theorem output_order_witness:
  "has_package ''import z.Z\<newline>val y = 2\<newline>// c\<newline>package a\<newline>import b.B\<newline>val x = 1\<newline>'' \<and>
   fix_text ''import z.Z\<newline>val y = 2\<newline>// c\<newline>package a\<newline>import b.B\<newline>val x = 1\<newline>''
     = Some ''// c\<newline>package a\<newline>\<newline>import b.B\<newline>import z.Z\<newline>\<newline>val y = 2\<newline>val x = 1\<newline>''"
proof -
  let ?t = "''import z.Z\<newline>val y = 2\<newline>// c\<newline>package a\<newline>import b.B\<newline>val x = 1\<newline>''"
  have a: "has_package ?t" unfolding has_package_code by code_simp
  have b: "concat (in_bucket Header False (readlines ?t))
        @ terminated (last (filter is_package (readlines ?t)))
        @ ''\<newline>'' @ import_block (imports_of ?t) @ ''\<newline>'' @ body_of ?t
     = ''// c\<newline>package a\<newline>\<newline>import b.B\<newline>import z.Z\<newline>\<newline>val y = 2\<newline>val x = 1\<newline>''"
    by code_simp
  from output_order [OF a] have "fix_text ?t = Some (concat (in_bucket Header False (readlines ?t))
        @ terminated (last (filter is_package (readlines ?t)))
        @ ''\<newline>'' @ import_block (imports_of ?t) @ ''\<newline>'' @ body_of ?t)" by blast
  with a b show ?thesis by simp
qed


text \<open>
  C6. A file made of a package line, the line \<open>import android.util.Log\<close> and the body
  line \<open>Log.d(TAG, "hello")\<close> is written back as the package line, an empty line, the line
  \<open>import com.coni.hyperisle.util.HiLog\<close> as the whole import block, an empty line and
  the body line \<open>HiLog.d(HiLog.TAG_ISLAND, "hello")\<close>.
\<close>

theorem end_to_end_example:
  assumes "is_package pkg" and "CHR ''\<newline>'' \<notin> set pkg"
  shows \<open>fix_text (pkg @ ''\<newline>'' @ ''import android.util.Log\<newline>'' @ ''Log.d(TAG, "hello")\<newline>'')
    = Some (pkg @ ''\<newline>'' @ ''\<newline>'' @ ''import com.coni.hyperisle.util.HiLog\<newline>'' @ ''\<newline>''
        @ ''HiLog.d(HiLog.TAG_ISLAND, "hello")\<newline>'')\<close>
proof -
  let ?imp = "''import android.util.Log\<newline>''"
  let ?call = \<open>''Log.d(TAG, "hello")\<newline>''\<close>
  let ?t = "pkg @ ''\<newline>'' @ ?imp @ ?call"
  have rl: "readlines ?t = [pkg @ ''\<newline>'', ?imp, ?call]"
    using readlines_line [OF assms(2), of "?imp @ ?call"] by simp
  have p: "is_package (pkg @ ''\<newline>'')"
    using assms(1) by (simp add: is_package_newline)
  have i: "\<not> is_package ?imp" "is_import ?imp" "strip ?imp = old_import"
    by code_simp+
  have c: "\<not> is_package ?call" "\<not> is_import ?call"
    by code_simp+
  have hp: "has_package ?t"
    unfolding has_package_def rl using p by simp
  have h: "header_comments (parsed ?t) = []"
    unfolding parsed_header rl using p i c by (simp add: in_bucket_Cons)
  have o: "other_lines (parsed ?t) = [?call]"
    unfolding parsed_other rl using p i c by (simp add: in_bucket_Cons)
  have b: "body_of ?t = ''HiLog.d(HiLog.TAG_ISLAND, \"hello\")\<newline>''"
    unfolding body_of_def o by code_simp
  have np: "\<not> is_import (pkg @ ''\<newline>'')"
    using p is_import_not_package by blast
  have ims: "imports_set (parsed ?t) = {old_import}"
    unfolding parsed_imports rl using np i c by simp
  have im: "imports_of ?t = [new_import]"
    unfolding imports_of_def ims b by code_simp
  have l: "last (filter is_package (readlines ?t)) = pkg @ ''\<newline>''"
    unfolding rl using p i c by simp
  show ?thesis
    unfolding fix_text_has_package [OF hp] h b im l
    by (simp add: write_back_def new_import_def)
qed

theorem end_to_end_example_witness:
  \<open>is_package ''package com.example'' \<and> CHR ''\<newline>'' \<notin> set ''package com.example'' \<and>
   fix_text ''package com.example\<newline>import android.util.Log\<newline>Log.d(TAG, "hello")\<newline>''
     = Some ''package com.example\<newline>\<newline>import com.coni.hyperisle.util.HiLog\<newline>\<newline>HiLog.d(HiLog.TAG_ISLAND, "hello")\<newline>''\<close>
proof -
  have a: "is_package ''package com.example''" by code_simp
  have b: "CHR ''\<newline>'' \<notin> set ''package com.example''" by simp
  from end_to_end_example [OF a b] a b show ?thesis by simp
qed

text \<open>
  C7. A file in which no line's stripped content starts with \<open>package \<close> is not written
  back: \<open>fix_text\<close> takes the early return, and the world (the files and the standard
  output) after \<open>fix_file_structure\<close> is the world before it. For a path that does not
  exist the world is unchanged as well, and the result is not an error.
\<close>

theorem no_package_no_write:
  "(files w filepath = None \<longrightarrow> fix_file_structure filepath w = Inr w) \<and>
   (files w filepath = Some (Text t) \<and> (\<forall>l\<in>set (readlines t). \<not> is_package l)
      \<longrightarrow> fix_text t = None \<and> fix_file_structure filepath w = Inr w)"
  by (auto simp: fix_file_structure_def fix_text_None)

theorem no_package_no_write_witness:
  "(let src = ''// only a comment\<newline>\<newline>/* and a block */\<newline>'';
        w = \<lparr>files = [''A.kt'' \<mapsto> Text src], stdout = []\<rparr>
    in files w ''B.kt'' = None \<and> fix_file_structure ''B.kt'' w = Inr w \<and>
       files w ''A.kt'' = Some (Text src) \<and> (\<forall>l\<in>set (readlines src). \<not> is_package l) \<and>
       fix_text src = None \<and> fix_file_structure ''A.kt'' w = Inr w)"
proof -
  let ?src = "''// only a comment\<newline>\<newline>/* and a block */\<newline>''"
  let ?w = "\<lparr>files = [''A.kt'' \<mapsto> Text ?src], stdout = []\<rparr>"
  have a: "files ?w ''B.kt'' = None" by simp
  have b: "files ?w ''A.kt'' = Some (Text ?src)" by simp
  have c: "\<forall>l\<in>set (readlines ?src). \<not> is_package l" by code_simp
  from no_package_no_write [of ?w "''B.kt''"] a
  have d: "fix_file_structure ''B.kt'' ?w = Inr ?w" by blast
  from no_package_no_write [of ?w "''A.kt''" ?src] b c
  have e: "fix_text ?src = None \<and> fix_file_structure ''A.kt'' ?w = Inr ?w" by blast
  from a b c d e show ?thesis unfolding Let_def by blast
qed

text \<open>
  C8. The parse loop gives every line one bucket, the one \<open>buckets\<close> computes for it:
  the four containers of the loop hold exactly the lines of their bucket, in order, and the
  four buckets together have as many lines as the file. A comment or blank line that comes
  after a package line goes to the body.
\<close>

theorem every_line_one_bucket:
  "(let st = parse_lines init_state ls; bs = buckets False ls in
     length bs = length ls \<and>
     header_comments st = in_bucket Header False ls \<and>
     package_line st = (case in_bucket Package False ls of [] \<Rightarrow> None | p # ps \<Rightarrow> Some (last (p # ps))) \<and>
     imports_set st = strip ` set (in_bucket Import False ls) \<and>
     other_lines st = in_bucket Body False ls \<and>
     length (in_bucket Header False ls) + length (in_bucket Package False ls) +
       length (in_bucket Import False ls) + length (in_bucket Body False ls) = length ls \<and>
     (\<forall>i<length ls. (\<exists>j<i. is_package (ls ! j)) \<and> is_comment_or_blank (ls ! i)
         \<longrightarrow> bs ! i = Body))"
proof -
  have pk: "package_line (parse_lines init_state ls) =
      (case in_bucket Package False ls of [] \<Rightarrow> None | p # ps \<Rightarrow> Some (last (p # ps)))"
    by (simp add: parse_lines_package in_bucket_Package init_state_def filter_empty_conv
        split: list.splits)
  have body: "\<forall>i<length ls. (\<exists>j<i. is_package (ls ! j)) \<and> is_comment_or_blank (ls ! i)
         \<longrightarrow> buckets False ls ! i = Body"
    by (auto simp: buckets_nth comment_not_package comment_not_import)
  show ?thesis
    unfolding Let_def
    using pk body bucket_sizes [of False ls]
    by (simp add: parse_lines_header parse_lines_other parse_lines_imports in_bucket_Import
        init_state_def)
qed

theorem every_line_one_bucket_witness:
  "(let ls = readlines ''// header\<newline>import b.B\<newline>package a\<newline>// after\<newline>\<newline>val x = 1\<newline>'';
        st = parse_lines init_state ls in
     1 < length ls \<and> 3 < length ls \<and> is_package (ls ! 2) \<and> is_comment_or_blank (ls ! 3) \<and>
     buckets False ls = [Header, Import, Package, Body, Body, Body] \<and>
     buckets False ls ! 3 = Body \<and>
     header_comments st = [''// header\<newline>''] \<and>
     other_lines st = [''// after\<newline>'', ''\<newline>'', ''val x = 1\<newline>''])"
proof -
  let ?ls = "readlines ''// header\<newline>import b.B\<newline>package a\<newline>// after\<newline>\<newline>val x = 1\<newline>''"
  have a: "3 < length ?ls" by code_simp
  have b: "is_package (?ls ! 2)" by code_simp
  have c: "is_comment_or_blank (?ls ! 3)" by code_simp
  have d: "buckets False ?ls = [Header, Import, Package, Body, Body, Body]" by code_simp
  have e: "in_bucket Header False ?ls = [''// header\<newline>'']" by code_simp
  have f: "in_bucket Body False ?ls = [''// after\<newline>'', ''\<newline>'', ''val x = 1\<newline>'']" by code_simp
  from b have g: "\<exists>j<3. is_package (?ls ! j)" by (intro exI [of _ 2]) simp
  from every_line_one_bucket [of ?ls] a c g
  have h: "buckets False ?ls ! 3 = Body" unfolding Let_def by blast
  from every_line_one_bucket [of ?ls]
  have i: "header_comments (parse_lines init_state ?ls) = in_bucket Header False ?ls"
    and j: "other_lines (parse_lines init_state ?ls) = in_bucket Body False ?ls"
    unfolding Let_def by blast+
  from a b c d e f h i j show ?thesis unfolding Let_def by simp
qed

text \<open>
  C9. Whenever a text with a package line is rewritten, \<open>import android.util.Log\<close> is
  not among the imports written, whatever the body is; the witness is a file whose body
  keeps a \<open>Log.v\<close> call that no rewrite touches.
\<close>

theorem old_import_removed:
  assumes "has_package t"
  shows "fix_text t = Some (write_back (header_comments (parsed t))
           (last (filter is_package (readlines t))) (imports_of t) (body_of t)) \<and>
         old_import \<notin> set (imports_of t)"
  using assms by (simp add: fix_text_has_package set_imports_of old_not_in_reconstruct)

theorem old_import_removed_witness:
  "has_package ''package a\<newline>import android.util.Log\<newline>Log.v(TAG, 1)\<newline>'' \<and>
   old_import \<in> imports_set (parsed ''package a\<newline>import android.util.Log\<newline>Log.v(TAG, 1)\<newline>'') \<and>
   body_of ''package a\<newline>import android.util.Log\<newline>Log.v(TAG, 1)\<newline>'' = ''Log.v(TAG, 1)\<newline>'' \<and>
   old_import \<notin> set (imports_of ''package a\<newline>import android.util.Log\<newline>Log.v(TAG, 1)\<newline>'') \<and>
   fix_text ''package a\<newline>import android.util.Log\<newline>Log.v(TAG, 1)\<newline>''
     = Some ''package a\<newline>\<newline>\<newline>Log.v(TAG, 1)\<newline>''"
proof -
  let ?t = "''package a\<newline>import android.util.Log\<newline>Log.v(TAG, 1)\<newline>''"
  have a: "has_package ?t" unfolding has_package_code by code_simp
  have b: "old_import \<in> imports_set (parsed ?t)" by code_simp
  have c: "body_of ?t = ''Log.v(TAG, 1)\<newline>''" by code_simp
  have d: "write_back (header_comments (parsed ?t))
           (last (filter is_package (readlines ?t))) (imports_of ?t) (body_of ?t)
           = ''package a\<newline>\<newline>\<newline>Log.v(TAG, 1)\<newline>''" by code_simp
  from old_import_removed [OF a] a b c d show ?thesis by simp
qed


text \<open>
  C10. Whenever the text of a file has a package line, the file is written and
  \<open>Fixed\<close> with the path is printed, whatever the text written is (nothing compares it
  with the text read). The import of \<open>HiLog\<close> is among the imports written whenever
  \<open>HiLog.\<close> occurs in the rewritten body, wherever it occurs there.
\<close>

theorem always_written:
  assumes "files w filepath = Some (Text t)" and "has_package t"
  shows "fix_text t = Some (write_back (header_comments (parsed t))
           (last (filter is_package (readlines t))) (imports_of t) (body_of t)) \<and>
         fix_file_structure filepath w = Inr (w\<lparr>
           files := (files w)(filepath \<mapsto> Text (write_back (header_comments (parsed t))
             (last (filter is_package (readlines t))) (imports_of t) (body_of t))),
           stdout := stdout w @ [''Fixed '' @ filepath]\<rparr>) \<and>
         (contains (body_of t) ''HiLog.'' \<longrightarrow> new_import \<in> set (imports_of t))"
  using assms
  by (simp add: fix_file_structure_def fix_text_has_package set_imports_of new_in_reconstruct)

theorem always_written_witness:
  "files \<lparr>files = [''A.kt'' \<mapsto> Text ''package a\<newline>// see HiLog.d\<newline>''], stdout = []\<rparr> ''A.kt''
     = Some (Text ''package a\<newline>// see HiLog.d\<newline>'') \<and>
   has_package ''package a\<newline>// see HiLog.d\<newline>'' \<and>
   contains (body_of ''package a\<newline>// see HiLog.d\<newline>'') ''HiLog.'' \<and>
   body_of ''package a\<newline>// see HiLog.d\<newline>'' = ''// see HiLog.d\<newline>'' \<and>
   new_import \<in> set (imports_of ''package a\<newline>// see HiLog.d\<newline>'') \<and>
   fix_file_structure ''A.kt''
       \<lparr>files = [''A.kt'' \<mapsto> Text ''package a\<newline>// see HiLog.d\<newline>''], stdout = []\<rparr>
     = Inr \<lparr>files = [''A.kt'' \<mapsto> Text
          ''package a\<newline>\<newline>import com.coni.hyperisle.util.HiLog\<newline>\<newline>// see HiLog.d\<newline>''],
        stdout = [''Fixed A.kt'']\<rparr>"
proof -
  let ?t = "''package a\<newline>// see HiLog.d\<newline>''"
  let ?w = "\<lparr>files = [''A.kt'' \<mapsto> Text ?t], stdout = []\<rparr>"
  have a: "files ?w ''A.kt'' = Some (Text ?t)" by simp
  have b: "has_package ?t" unfolding has_package_code by code_simp
  have c: "contains (body_of ?t) ''HiLog.''" by code_simp
  have d: "body_of ?t = ''// see HiLog.d\<newline>''" by code_simp
  have e: "write_back (header_comments (parsed ?t))
           (last (filter is_package (readlines ?t))) (imports_of ?t) (body_of ?t)
         = ''package a\<newline>\<newline>import com.coni.hyperisle.util.HiLog\<newline>\<newline>// see HiLog.d\<newline>''"
    by code_simp
  from always_written [OF a b] c
  have f: "new_import \<in> set (imports_of ?t)"
    and g: "fix_file_structure ''A.kt'' ?w = Inr (?w\<lparr>
           files := (files ?w)(''A.kt'' \<mapsto> Text (write_back (header_comments (parsed ?t))
             (last (filter is_package (readlines ?t))) (imports_of ?t) (body_of ?t))),
           stdout := stdout ?w @ [''Fixed '' @ ''A.kt'']\<rparr>)"
    by blast+
  from g have h: "fix_file_structure ''A.kt'' ?w = Inr \<lparr>files = [''A.kt'' \<mapsto> Text
          ''package a\<newline>\<newline>import com.coni.hyperisle.util.HiLog\<newline>\<newline>// see HiLog.d\<newline>''],
        stdout = [''Fixed A.kt'']\<rparr>"
    unfolding e by simp
  from a b c d f h show ?thesis by blast
qed

end
